theory Spec2Isabelle
  imports Main "HOL-Library.AList"
begin

section \<open>The background-search orchestrator (src/utils/background\_search.ts)\<close>

text \<open>
  The orchestrator is a closure over a handful of mutable variables, driven by public calls
  (\<open>setText\<close>, \<open>runImmediate\<close>, \<open>cancel\<close>, \<open>setOptions\<close>, \<open>clearCache\<close>), by one debounce
  timer and by the continuations of the promise chain that \<open>run\<close> builds for every
  dispatched attempt. The embedding keeps the closure variables as the fields of a record,
  turns every source function into a function on that record, and makes the event loop
  explicit: an \<open>event\<close> is one public call, one tick of the clock, the firing of the timer, or
  one continuation of one attempt's promise chain. Events may be interleaved in any order;
  a continuation whose turn has not come is a no-op.

  Conventions of the model:
  \<^item> strings are lists of 8-bit characters; whitespace and letter case are the ASCII ones, so
    the normaliser is exact on ASCII text;
  \<^item> the numeric options and the clock are integers (milliseconds);
  \<^item> a fetch result is any value or \<open>null\<close> (\<open>'r nullable\<close>; \<open>undefined\<close> is a value like any
    other, as it is for the test \<open>cached !== null\<close>);
  \<^item> the injected callbacks do not call back into the orchestrator. Each invocation is
    appended to \<open>log\<close>, together with the snapshot \<open>getState()\<close> would return at that moment,
    appended to \<open>observed\<close>. In the event loop (\<open>exec\<close>) every invocation returns
    normally; what a public call does when an invocation throws is \<open>call\<close>, defined apart. The
    injected \<open>fetch\<close> is the environment: its invocation is logged, and its promise is
    settled by a later event;
  \<^item> every log entry is tagged with the attempt (the captured \<open>mySeq\<close>) whose code emitted
    it, \<open>None\<close> for the cache hit that \<open>run\<close> reports before any attempt exists.
\<close>

subsection \<open>normalizeQuery\<close>

definition is_space :: "char \<Rightarrow> bool" where
  "is_space c = (c \<in> set [CHR '' '', CHR 0x09, CHR 0x0A, CHR 0x0B, CHR 0x0C, CHR 0x0D])"

definition trim :: "string \<Rightarrow> string" where
  "trim s = rev (dropWhile is_space (rev (dropWhile is_space s)))"

text \<open>\<open>replace(/\s+/g, ' ')\<close>: every maximal run of whitespace becomes one space.\<close>

function collapse_ws :: "string \<Rightarrow> string" where
  "collapse_ws [] = []"
| "collapse_ws (c # cs) =
     (if is_space c then CHR '' '' # collapse_ws (dropWhile is_space cs)
      else c # collapse_ws cs)"
  by pat_completeness auto
termination
  by (relation "measure length") (auto simp: length_dropWhile_le less_Suc_eq_le)

definition toLowerChar :: "char \<Rightarrow> char" where
  "toLowerChar c =
     (let n = (of_char c :: nat) in if 65 \<le> n \<and> n \<le> 90 then char_of (n + 32) else c)"

definition toLowerCase :: "string \<Rightarrow> string" where
  "toLowerCase s = map toLowerChar s"

definition normalizeQuery :: "string \<Rightarrow> string" where
  "normalizeQuery s = (if s = [] then [] else toLowerCase (collapse_ws (trim s)))"

text \<open>\<open>String.prototype.startsWith\<close> and \<open>slice(0, n)\<close>.\<close>

definition startsWith :: "string \<Rightarrow> string \<Rightarrow> bool" where
  "startsWith s p = (take (length p) s = p)"

definition slice0 :: "string \<Rightarrow> nat \<Rightarrow> string" where
  "slice0 s n = take n s"

subsection \<open>State\<close>

datatype js_error = JsError (err_name: string) (err_message: string)

text \<open>
  The stages of one attempt's promise chain
  \<open>Promise.resolve().then(fetch).then(ok).catch(err).finally(fin)\<close>:
  queued (the first microtask has not run), fetching (fetch was called with the given signal
  and its promise is pending), handled (the \<open>then\<close> or the \<open>catch\<close> handler has run), done
  (the \<open>finally\<close> handler has run).
\<close>

datatype stage = Queued | Fetching "nat option" | Handled | Done

datatype attempt = Attempt (norm: string) (stage: stage)

text \<open>What the fetch promise resolves to: \<open>null\<close> or a value.\<close>

datatype 'r nullable = Null | NonNull 'r

datatype 'r obs =
    FetchCall string "nat option"
  | OnStart string
  | OnSuccess string "'r nullable" bool
  | OnError string js_error
  | OnFinally string

record 'r orchestrator_state =
  st_latestText :: string
  st_lastCompletedQuery :: string
  st_lastResult :: "'r nullable"
  st_inFlightQuery :: "string option"
  st_isInFlight :: bool
  st_cacheSize :: nat

record 'r world =
  minLength :: int
  debounceMs :: int
  cacheTTL :: int
  useCache :: bool
  refreshOnCache :: bool
  latestText :: string
  lastCompletedQuery :: string
  lastResult :: "'r nullable"
  lastSearchedQuery :: string
  inFlightQuery :: "string option"
  abortController :: "nat option"
  timerId :: "int option"
  seq :: nat
  cache :: "(string \<times> int \<times> 'r nullable) list"
  now :: int
  hasAbortController :: bool
  controllers :: "bool list"
  attempts :: "nat \<rightharpoonup> attempt"
  log :: "(nat option \<times> 'r obs) list"
  observed :: "'r orchestrator_state list"

text \<open>
  \<open>timerId\<close> holds the due time of the pending timer; \<open>abortController\<close> holds the index of
  the current controller in \<open>controllers\<close>, the list of the \<open>aborted\<close> flags of all
  controllers created so far; \<open>now\<close> is \<open>Date.now()\<close>; \<open>hasAbortController\<close> is
  \<open>typeof AbortController !== 'undefined'\<close>; \<open>observed\<close> runs parallel to \<open>log\<close>.
\<close>

text \<open>Truthiness of \<open>string | null\<close>.\<close>

definition truthy :: "string option \<Rightarrow> bool" where
  "truthy v = (case v of None \<Rightarrow> False | Some s \<Rightarrow> s \<noteq> [])"

definition getState :: "'r world \<Rightarrow> 'r orchestrator_state" where
  "getState w =
     \<lparr>st_latestText = latestText w,
      st_lastCompletedQuery = lastCompletedQuery w,
      st_lastResult = lastResult w,
      st_inFlightQuery = inFlightQuery w,
      st_isInFlight = truthy (inFlightQuery w),
      st_cacheSize = length (cache w)\<rparr>"

text \<open>
  The invocation of a callback, or of fetch: the call is logged, with the state the callee
  would see.
\<close>

definition emit :: "nat option \<Rightarrow> 'r obs \<Rightarrow> 'r world \<Rightarrow> 'r world" where
  "emit who ob w = w\<lparr>log := log w @ [(who, ob)], observed := observed w @ [getState w]\<rparr>"

subsection \<open>The closure's functions\<close>

record set_options =
  so_minLength :: "int option"
  so_debounceMs :: "int option"
  so_cacheTTL :: "int option"
  so_useCache :: "bool option"
  so_refreshOnCache :: "bool option"

definition setOptions :: "set_options option \<Rightarrow> 'r world \<Rightarrow> 'r world" where
  "setOptions newOpts w =
     (case newOpts of
        None \<Rightarrow> w
      | Some opts \<Rightarrow>
          (let w1 = (case so_minLength opts of Some v \<Rightarrow> w\<lparr>minLength := v\<rparr> | None \<Rightarrow> w);
               w2 = (case so_debounceMs opts of Some v \<Rightarrow> w1\<lparr>debounceMs := v\<rparr> | None \<Rightarrow> w1);
               w3 = (case so_cacheTTL opts of Some v \<Rightarrow> w2\<lparr>cacheTTL := v\<rparr> | None \<Rightarrow> w2);
               w4 = (case so_useCache opts of Some v \<Rightarrow> w3\<lparr>useCache := v\<rparr> | None \<Rightarrow> w3)
           in (case so_refreshOnCache opts of Some v \<Rightarrow> w4\<lparr>refreshOnCache := v\<rparr> | None \<Rightarrow> w4)))"

definition clearTimer :: "'r world \<Rightarrow> 'r world" where
  "clearTimer w = (case timerId w of Some t \<Rightarrow> w\<lparr>timerId := None\<rparr> | None \<Rightarrow> w)"

definition clearCache :: "'r world \<Rightarrow> 'r world" where
  "clearCache w = w\<lparr>cache := []\<rparr>"

text \<open>
  \<open>getCached\<close> returns \<open>null\<close> for a miss and the stored result otherwise, which may itself
  be \<open>null\<close>.
\<close>

definition getCached :: "string \<Rightarrow> 'r world \<Rightarrow> 'r nullable \<times> 'r world" where
  "getCached normQuery w =
     (if \<not> useCache w then (Null, w)
      else case map_of (cache w) normQuery of
             None \<Rightarrow> (Null, w)
           | Some (ts, res) \<Rightarrow>
               if now w - ts > cacheTTL w
               then (Null, w\<lparr>cache := AList.delete normQuery (cache w)\<rparr>)
               else (res, w))"

definition setCached :: "string \<Rightarrow> 'r nullable \<Rightarrow> 'r world \<Rightarrow> 'r world" where
  "setCached normQuery res w = w\<lparr>cache := AList.update normQuery (now w, res) (cache w)\<rparr>"

text \<open>\<open>abortController.abort()\<close> on the current controller, if there is one.\<close>

definition abort :: "'r world \<Rightarrow> 'r world" where
  "abort w =
     (case abortController w of
        None \<Rightarrow> w
      | Some c \<Rightarrow> w\<lparr>controllers := (controllers w)[c := True]\<rparr>)"

definition cancel :: "'r world \<Rightarrow> 'r world" where
  "cancel w = (abort (clearTimer w))\<lparr>inFlightQuery := None, abortController := None\<rparr>"

text \<open>
  Lines 191 to 236 of \<open>run\<close>: in-flight dedup, supersession, the new in-flight slot, the
  sequence number, \<open>onStart\<close>, and the promise chain (the new attempt, queued).
\<close>

definition dispatch :: "string \<Rightarrow> 'r world \<Rightarrow> 'r world" where
  "dispatch nq w =
     (if truthy (inFlightQuery w) \<and> inFlightQuery w = Some nq then w
      else
        let w1 = (if truthy (inFlightQuery w) \<and> inFlightQuery w \<noteq> Some nq
                     \<and> abortController w \<noteq> None
                  then abort w else w);
            w2 = w1\<lparr>inFlightQuery := Some nq\<rparr>;
            w3 = (if hasAbortController w2
                  then w2\<lparr>abortController := Some (length (controllers w2)),
                          controllers := controllers w2 @ [False]\<rparr>
                  else w2\<lparr>abortController := None\<rparr>);
            mySeq = seq w3 + 1;
            w4 = w3\<lparr>seq := mySeq\<rparr>;
            w5 = emit (Some mySeq) (OnStart nq) w4
        in w5\<lparr>attempts := (attempts w5)(mySeq \<mapsto> Attempt nq Queued)\<rparr>)"

definition run :: "string option \<Rightarrow> 'r world \<Rightarrow> 'r world" where
  "run query w =
     (let raw = (case query of Some q \<Rightarrow> q | None \<Rightarrow> latestText w);
          nq = normalizeQuery raw
      in if nq = [] \<or> int (length nq) < minLength w then w
         else
           (let (cached, w1) = getCached nq w
            in if cached \<noteq> Null
               then (let w2 = emit None (OnSuccess nq cached True) w1
                     in if \<not> refreshOnCache w2 then w2 else dispatch nq w2)
               else dispatch nq w1))"

text \<open>The near-duplicate test of \<open>schedule\<close> (lines 252 to 263).\<close>

definition nearDuplicate :: "string \<Rightarrow> string \<Rightarrow> bool" where
  "nearDuplicate nq lastSearched =
     (lastSearched \<noteq> [] \<and> nq \<noteq> [] \<and>
      (let diff = abs (int (length nq) - int (length lastSearched))
       in diff \<le> 1 \<and> length nq > 0 \<and> length lastSearched > 0 \<and>
          (let shorter = (if length nq < length lastSearched then nq else lastSearched);
               longer = (if length nq \<ge> length lastSearched then nq else lastSearched)
           in startsWith longer shorter
              \<or> startsWith shorter (slice0 longer (length shorter)))))"

definition schedule :: "'r world \<Rightarrow> 'r world" where
  "schedule w =
     (let w1 = clearTimer w;
          nq = normalizeQuery (latestText w1)
      in if nq = [] \<or> int (length nq) < minLength w1 then w1
         else if nq = lastSearchedQuery w1 \<or> Some nq = inFlightQuery w1 then w1
         else if nearDuplicate nq (lastSearchedQuery w1) then w1
         else w1\<lparr>timerId := Some (now w1 + max 0 (debounceMs w1))\<rparr>)"

definition setText :: "string option \<Rightarrow> 'r world \<Rightarrow> 'r world" where
  "setText text w =
     schedule (w\<lparr>latestText := (case text of None \<Rightarrow> [] | Some t \<Rightarrow> t)\<rparr>)"

definition runImmediate :: "string option \<Rightarrow> 'r world \<Rightarrow> 'r world" where
  "runImmediate text w =
     (let w1 = (case text of Some t \<Rightarrow> w\<lparr>latestText := t\<rparr> | None \<Rightarrow> w);
          w2 = clearTimer w1
      in run (Some (latestText w2)) w2)"

subsection \<open>The continuations of an attempt's promise chain\<close>

definition setStage :: "nat \<Rightarrow> stage \<Rightarrow> 'r world \<Rightarrow> 'r world" where
  "setStage k st w =
     (case attempts w k of
        None \<Rightarrow> w
      | Some a \<Rightarrow> w\<lparr>attempts := (attempts w)(k \<mapsto> Attempt (norm a) st)\<rparr>)"

text \<open>
  The first microtask (line 209): \<open>fetchFn(norm, {signal})\<close>, where the signal is read
  from the closure's \<open>abortController\<close> at that moment.
\<close>

definition fetchStart :: "nat \<Rightarrow> 'r world \<Rightarrow> 'r world" where
  "fetchStart k w =
     (case attempts w k of
        None \<Rightarrow> w
      | Some a \<Rightarrow>
          if stage a \<noteq> Queued then w
          else setStage k (Fetching (abortController w))
                 (emit (Some k) (FetchCall (norm a) (abortController w)) w))"

text \<open>The \<open>then\<close> handler (lines 210 to 219), run when the fetch promise fulfils.\<close>

definition thenHandler :: "nat \<Rightarrow> 'r nullable \<Rightarrow> 'r world \<Rightarrow> 'r world" where
  "thenHandler k res w =
     (case attempts w k of
        None \<Rightarrow> w
      | Some a \<Rightarrow>
          (case stage a of
             Fetching sg \<Rightarrow>
               (let w1 = setStage k Handled w
                in if inFlightQuery w1 \<noteq> Some (norm a) \<or> k \<noteq> seq w1 then w1
                   else
                     emit (Some k) (OnSuccess (norm a) res False)
                       ((setCached (norm a) res w1)
                          \<lparr>lastCompletedQuery := norm a,
                           lastSearchedQuery := norm a,
                           lastResult := res\<rparr>))
           | _ \<Rightarrow> w))"

text \<open>The \<open>catch\<close> handler (lines 220 to 228), run when the fetch promise rejects.\<close>

definition currentSignalAborted :: "'r world \<Rightarrow> bool" where
  "currentSignalAborted w =
     (case abortController w of
        None \<Rightarrow> False
      | Some c \<Rightarrow> c < length (controllers w) \<and> controllers w ! c)"

definition catchHandler :: "nat \<Rightarrow> js_error \<Rightarrow> 'r world \<Rightarrow> 'r world" where
  "catchHandler k err w =
     (case attempts w k of
        None \<Rightarrow> w
      | Some a \<Rightarrow>
          (case stage a of
             Fetching sg \<Rightarrow>
               (let aborted = (currentSignalAborted w \<or> err_name err = ''AbortError'');
                    w1 = setStage k Handled w
                in if k \<noteq> seq w1 then w1
                   else if \<not> aborted then emit (Some k) (OnError (norm a) err) w1
                   else w1)
           | _ \<Rightarrow> w))"

text \<open>The \<open>finally\<close> handler (lines 229 to 236).\<close>

definition finallyHandler :: "nat \<Rightarrow> 'r world \<Rightarrow> 'r world" where
  "finallyHandler k w =
     (case attempts w k of
        None \<Rightarrow> w
      | Some a \<Rightarrow>
          if stage a \<noteq> Handled then w
          else
            (let w1 = setStage k Done w
             in if k \<noteq> seq w1 then w1
                else emit (Some k) (OnFinally (norm a))
                       (w1\<lparr>inFlightQuery := None, abortController := None\<rparr>)))"

text \<open>The timer callback (lines 265 to 268), once the timer is due.\<close>

definition timerFire :: "'r world \<Rightarrow> 'r world" where
  "timerFire w =
     (case timerId w of
        None \<Rightarrow> w
      | Some due \<Rightarrow>
          if now w < due then w
          else (let w1 = w\<lparr>timerId := None\<rparr> in run (Some (latestText w1)) w1))"

subsection \<open>The event loop\<close>

datatype 'r event =
    SetText "string option"
  | RunImmediate "string option"
  | Cancel
  | SetOptions "set_options option"
  | ClearCache
  | Tick nat
  | TimerFire
  | FetchStart nat
  | Resolve nat "'r nullable"
  | Reject nat js_error
  | Finally nat

fun exec :: "'r event \<Rightarrow> 'r world \<Rightarrow> 'r world" where
  "exec (SetText text) w = setText text w"
| "exec (RunImmediate text) w = runImmediate text w"
| "exec Cancel w = cancel w"
| "exec (SetOptions newOpts) w = setOptions newOpts w"
| "exec ClearCache w = clearCache w"
| "exec (Tick d) w = w\<lparr>now := now w + int d\<rparr>"
| "exec TimerFire w = timerFire w"
| "exec (FetchStart k) w = fetchStart k w"
| "exec (Resolve k res) w = thenHandler k res w"
| "exec (Reject k err) w = catchHandler k err w"
| "exec (Finally k) w = finallyHandler k w"

definition run_events :: "'r event list \<Rightarrow> 'r world \<Rightarrow> 'r world" where
  "run_events evs w = fold exec evs w"

subsection \<open>createOrchestrator\<close>

datatype js_value =
    JsUndefined | JsNull | JsBoolean bool | JsNumber int | JsString string | JsObject
  | JsFunction

fun typeof :: "js_value \<Rightarrow> string" where
  "typeof JsUndefined = ''undefined''"
| "typeof JsNull = ''object''"
| "typeof (JsBoolean b) = ''boolean''"
| "typeof (JsNumber n) = ''number''"
| "typeof (JsString s) = ''string''"
| "typeof JsObject = ''object''"
| "typeof JsFunction = ''function''"

record options =
  opt_fetch :: js_value
  opt_minLength :: "int option"
  opt_debounceMs :: "int option"
  opt_cacheTTL :: "int option"
  opt_useCache :: "bool option"
  opt_refreshOnCache :: "bool option"

record environment =
  env_now :: int
  env_hasAbortController :: bool

datatype error = Error string

definition createOrchestrator :: "environment \<Rightarrow> options option \<Rightarrow> error + 'r world" where
  "createOrchestrator env opts =
     (let fetchFn = (case opts of None \<Rightarrow> JsUndefined | Some opt \<Rightarrow> opt_fetch opt)
      in if typeof fetchFn \<noteq> ''function''
         then Inl (Error ''createOrchestrator requires options.fetch(query, { signal })'')
         else
           (let opt = the opts
            in Inr \<lparr>minLength = (case opt_minLength opt of Some v \<Rightarrow> v | None \<Rightarrow> 3),
                    debounceMs = (case opt_debounceMs opt of Some v \<Rightarrow> v | None \<Rightarrow> 75),
                    cacheTTL = (case opt_cacheTTL opt of Some v \<Rightarrow> v | None \<Rightarrow> 60000),
                    useCache = (opt_useCache opt \<noteq> Some False),
                    refreshOnCache = (opt_refreshOnCache opt = Some True),
                    latestText = [],
                    lastCompletedQuery = [],
                    lastResult = Null,
                    lastSearchedQuery = [],
                    inFlightQuery = None,
                    abortController = None,
                    timerId = None,
                    seq = 0,
                    cache = [],
                    now = env_now env,
                    hasAbortController = env_hasAbortController env,
                    controllers = [],
                    attempts = Map.empty,
                    log = [],
                    observed = []\<rparr>))"

text \<open>
  A whole session: the constructor, then any sequence of events, in each of which the
  injected callbacks return normally. Under that convention the constructor's check is the
  only way a session fails; a callback that throws is the subject of \<open>call\<close> below.
\<close>

definition session :: "environment \<Rightarrow> options option \<Rightarrow> 'r event list \<Rightarrow> error + 'r world" where
  "session env opts evs =
     (case createOrchestrator env opts of
        Inl e \<Rightarrow> Inl e
      | Inr w \<Rightarrow> Inr (run_events evs w))"

subsection \<open>A concrete orchestrator\<close>

definition default_options :: options where
  "default_options =
     \<lparr>opt_fetch = JsFunction, opt_minLength = None, opt_debounceMs = None,
      opt_cacheTTL = None, opt_useCache = None, opt_refreshOnCache = None\<rparr>"

definition browser_env :: environment where
  "browser_env = \<lparr>env_now = 0, env_hasAbortController = True\<rparr>"

definition fresh_world :: "nat world" where
  "fresh_world =
     \<lparr>minLength = 3, debounceMs = 75, cacheTTL = 60000, useCache = True,
      refreshOnCache = False, latestText = [], lastCompletedQuery = [], lastResult = Null,
      lastSearchedQuery = [], inFlightQuery = None, abortController = None, timerId = None,
      seq = 0, cache = [], now = 0, hasAbortController = True, controllers = [],
      attempts = Map.empty, log = [], observed = []\<rparr>"

text \<open>The same orchestrator after one completed search for \<open>hello\<close>.\<close>

definition after_hello :: "nat world" where
  "after_hello =
     run_events [RunImmediate (Some ''hello''), FetchStart 1, Resolve 1 (NonNull 7), Finally 1] fresh_world"

text \<open>
  Later still: a second search (\<open>weather\<close>) has completed, more than \<open>cacheTTL\<close> has
  passed, and \<open>setText("hello")\<close> has armed the timer, which is now due.
\<close>

definition stale_hello :: "nat world" where
  "stale_hello =
     run_events [RunImmediate (Some ''weather''), FetchStart 2, Resolve 2 (NonNull 8), Finally 2,
                 Tick 60001, SetText (Some ''hello''), Tick 75] after_hello"

text \<open>
  An orchestrator with \<open>useCache\<close> switched off, one completed search (\<open>hello\<close>) and a
  second one (\<open>weather\<close>) in flight.
\<close>

definition no_cache_in_flight :: "nat world" where
  "no_cache_in_flight =
     run_events
       [SetOptions (Some \<lparr>so_minLength = None, so_debounceMs = None, so_cacheTTL = None,
                          so_useCache = Some False, so_refreshOnCache = None\<rparr>),
        RunImmediate (Some ''hello''), FetchStart 1, Resolve 1 (NonNull 7), Finally 1,
        RunImmediate (Some ''weather''), FetchStart 2] fresh_world"

subsection \<open>Public calls when a callback throws\<close>









subsection \<open>Observations on the log and the attempts\<close>

text \<open>
  \<open>progress_ok cur k nq st st' news\<close> lists what one continuation of attempt \<open>k\<close> may
  do when the counter is \<open>cur\<close>: the stage it leaves, the stage it enters and the entries it
  logs.
\<close>

definition progress_ok ::
  "nat \<Rightarrow> nat \<Rightarrow> string \<Rightarrow> stage \<Rightarrow> stage \<Rightarrow> (nat option \<times> 'r obs) list \<Rightarrow> bool" where
  "progress_ok cur k nq st st' news =
     ((st = Queued \<and> (\<exists>ac. st' = Fetching ac \<and> news = [(Some k, FetchCall nq ac)]))
      \<or> ((\<exists>sg. st = Fetching sg) \<and> st' = Handled
          \<and> (news = []
              \<or> (k = cur \<and> ((\<exists>r. news = [(Some k, OnSuccess nq r False)])
                            \<or> (\<exists>e. news = [(Some k, OnError nq e)])))))
      \<or> (st = Handled \<and> st' = Done
          \<and> (news = [] \<or> (k = cur \<and> news = [(Some k, OnFinally nq)]))))"

definition attempts_bounded :: "'r world \<Rightarrow> bool" where
  "attempts_bounded w = (\<forall>k. attempts w k \<noteq> None \<longrightarrow> k \<le> seq w)"

definition is_success :: "'r obs \<Rightarrow> bool" where
  "is_success ob = (case ob of OnSuccess q r c \<Rightarrow> True | _ \<Rightarrow> False)"


definition successes_of :: "nat \<Rightarrow> (nat option \<times> 'r obs) list \<Rightarrow> (nat option \<times> 'r obs) list" where
  "successes_of k lg = filter (\<lambda>e. fst e = Some k \<and> is_success (snd e)) lg"




section \<open>Properties\<close>

subsection \<open>Basic facts\<close>

lemma create_default: "createOrchestrator browser_env (Some default_options) = Inr fresh_world"
  by (simp add: createOrchestrator_def default_options_def browser_env_def fresh_world_def)

lemma session_default:
  "session browser_env (Some default_options) evs = Inr (run_events evs fresh_world)"
  by (simp add: session_def create_default)


lemma clearTimer_eq: "clearTimer w = w\<lparr>timerId := None\<rparr>"
  by (cases "timerId w") (simp_all add: clearTimer_def)

lemma norm_hi: "normalizeQuery ''hi'' = ''hi''"
  by code_simp

lemma norm_hello: "normalizeQuery ''hello'' = ''hello''"
  by code_simp

lemma dispatch_skip:
  "truthy (inFlightQuery w) \<Longrightarrow> inFlightQuery w = Some nq \<Longrightarrow> dispatch nq w = w"
  by (simp add: dispatch_def)

lemma abort_frame: "abort w = w\<lparr>controllers := controllers (abort w)\<rparr>"
  by (cases "abortController w") (simp_all add: abort_def)

lemma dispatch_go:
  assumes "\<not> (truthy (inFlightQuery w) \<and> inFlightQuery w = Some nq)"
  shows "\<exists>ac cs ov. dispatch nq w =
           w\<lparr>inFlightQuery := Some nq, abortController := ac, controllers := cs,
             seq := seq w + 1,
             log := log w @ [(Some (seq w + 1), OnStart nq)],
             observed := ov,
             attempts := (attempts w)(seq w + 1 \<mapsto> Attempt nq Queued)\<rparr>"
proof -
  define w1 where "w1 = (if truthy (inFlightQuery w) \<and> inFlightQuery w \<noteq> Some nq
                     \<and> abortController w \<noteq> None
                  then abort w else w)"
  have "w1 = w\<lparr>controllers := controllers w1\<rparr>"
    unfolding w1_def using abort_frame [of w] by simp
  then obtain cs0 where w1: "w1 = w\<lparr>controllers := cs0\<rparr>" by blast
  have d: "dispatch nq w =
     (let w2 = w1\<lparr>inFlightQuery := Some nq\<rparr>;
            w3 = (if hasAbortController w2
                  then w2\<lparr>abortController := Some (length (controllers w2)),
                          controllers := controllers w2 @ [False]\<rparr>
                  else w2\<lparr>abortController := None\<rparr>);
            mySeq = seq w3 + 1;
            w4 = w3\<lparr>seq := mySeq\<rparr>;
            w5 = emit (Some mySeq) (OnStart nq) w4
        in w5\<lparr>attempts := (attempts w5)(mySeq \<mapsto> Attempt nq Queued)\<rparr>)"
    using assms unfolding dispatch_def w1_def by (simp only: if_False Let_def)
  show ?thesis
  proof (cases "hasAbortController w")
    case True
    have "dispatch nq w =
           w\<lparr>inFlightQuery := Some nq, abortController := Some (length cs0),
              controllers := cs0 @ [False],
             seq := seq w + 1,
             log := log w @ [(Some (seq w + 1), OnStart nq)],
             observed := observed (dispatch nq w),
             attempts := (attempts w)(seq w + 1 \<mapsto> Attempt nq Queued)\<rparr>"
      unfolding d using True by (simp add: w1 emit_def Let_def)
    then show ?thesis by blast
  next
    case False
    have "dispatch nq w =
           w\<lparr>inFlightQuery := Some nq, abortController := None,
              controllers := cs0,
             seq := seq w + 1,
             log := log w @ [(Some (seq w + 1), OnStart nq)],
             observed := observed (dispatch nq w),
             attempts := (attempts w)(seq w + 1 \<mapsto> Attempt nq Queued)\<rparr>"
      unfolding d using False by (simp add: w1 emit_def Let_def)
    then show ?thesis by blast
  qed
qed

lemma getCached_cases:
  obtains (miss) c where "getCached nq w = (Null, w\<lparr>cache := c\<rparr>)"
  | (hit) ts res where "getCached nq w = (NonNull res, w)" "useCache w"
      "map_of (cache w) nq = Some (ts, NonNull res)" "\<not> now w - ts > cacheTTL w"
proof (cases "useCache w")
  case False
  then have "getCached nq w = (Null, w\<lparr>cache := cache w\<rparr>)" by (simp add: getCached_def)
  then show ?thesis by (rule miss)
next
  case uc: True
  show ?thesis
  proof (cases "map_of (cache w) nq")
    case None
    with uc have "getCached nq w = (Null, w\<lparr>cache := cache w\<rparr>)" by (simp add: getCached_def)
    then show ?thesis by (rule miss)
  next
    case (Some p)
    obtain ts res where p: "p = (ts, res)" by (cases p)
    show ?thesis
    proof (cases "now w - ts > cacheTTL w")
      case True
      with uc Some p
      have "getCached nq w = (Null, w\<lparr>cache := AList.delete nq (cache w)\<rparr>)"
        by (simp add: getCached_def)
      then show ?thesis by (rule miss)
    next
      case fresh: False
      show ?thesis
      proof (cases res)
        case Null
        with uc Some p fresh have "getCached nq w = (Null, w\<lparr>cache := cache w\<rparr>)"
          by (simp add: getCached_def)
        then show ?thesis by (rule miss)
      next
        case (NonNull v)
        with uc Some p fresh have "getCached nq w = (NonNull v, w)"
          by (simp add: getCached_def)
        then show ?thesis using uc Some p fresh NonNull by (intro hit) simp_all
      qed
    qed
  qed
qed

lemma dispatch_cases:
  obtains (skip) "dispatch nq w = w" "inFlightQuery w = Some nq"
  | (go) ac cs ov where
      "dispatch nq w =
         w\<lparr>inFlightQuery := Some nq, abortController := ac, controllers := cs,
           seq := seq w + 1,
           log := log w @ [(Some (seq w + 1), OnStart nq)],
           observed := ov,
           attempts := (attempts w)(seq w + 1 \<mapsto> Attempt nq Queued)\<rparr>"
proof (cases "truthy (inFlightQuery w) \<and> inFlightQuery w = Some nq")
  case True
  then have t: "truthy (inFlightQuery w)" and e: "inFlightQuery w = Some nq"
    by blast+
  from dispatch_skip [OF t e] e show ?thesis by (rule skip)
next
  case False
  from dispatch_go [OF False] show ?thesis using go by blast
qed

lemma run_miss:
  assumes "\<not> (normalizeQuery (case q of Some t \<Rightarrow> t | None \<Rightarrow> latestText w) = []
             \<or> int (length (normalizeQuery (case q of Some t \<Rightarrow> t | None \<Rightarrow> latestText w)))
                 < minLength w)"
    and "getCached (normalizeQuery (case q of Some t \<Rightarrow> t | None \<Rightarrow> latestText w)) w = (Null, w1)"
  shows "run q w = dispatch (normalizeQuery (case q of Some t \<Rightarrow> t | None \<Rightarrow> latestText w)) w1"
  using assms by (simp add: run_def Let_def)

lemma run_hit:
  assumes "\<not> (normalizeQuery (case q of Some t \<Rightarrow> t | None \<Rightarrow> latestText w) = []
             \<or> int (length (normalizeQuery (case q of Some t \<Rightarrow> t | None \<Rightarrow> latestText w)))
                 < minLength w)"
    and "getCached (normalizeQuery (case q of Some t \<Rightarrow> t | None \<Rightarrow> latestText w)) w
           = (NonNull res, w1)"
  shows "run q w =
     (let w2 = emit None
                 (OnSuccess (normalizeQuery (case q of Some t \<Rightarrow> t | None \<Rightarrow> latestText w))
                    (NonNull res) True) w1
      in if \<not> refreshOnCache w2 then w2
         else dispatch (normalizeQuery (case q of Some t \<Rightarrow> t | None \<Rightarrow> latestText w)) w2)"
  using assms by (simp add: run_def Let_def)

lemma run_cases:
  fixes q :: "string option" and w :: "'r world"
  defines "nq \<equiv> normalizeQuery (case q of Some t \<Rightarrow> t | None \<Rightarrow> latestText w)"
  obtains (same) c lg ov where
      "run q w = w\<lparr>cache := c, log := lg, observed := ov\<rparr>"
      "lg = log w \<or> (\<exists>r. lg = log w @ [(None, OnSuccess nq r True)])"
  | (dispatched) c lg ac cs ov where
      "run q w =
         w\<lparr>cache := c, inFlightQuery := Some nq, abortController := ac, controllers := cs,
           seq := seq w + 1,
           log := lg @ [(Some (seq w + 1), OnStart nq)],
           observed := ov,
           attempts := (attempts w)(seq w + 1 \<mapsto> Attempt nq Queued)\<rparr>"
      "lg = log w \<or> (\<exists>r. lg = log w @ [(None, OnSuccess nq r True)])"
proof (cases "nq = [] \<or> int (length nq) < minLength w")
  case True
  then have "run q w = w\<lparr>cache := cache w, log := log w, observed := observed w\<rparr>"
    by (simp add: run_def nq_def Let_def)
  then show ?thesis by (rule same) simp
next
  case gate: False
  show ?thesis
  proof (cases rule: getCached_cases [of nq w])
    case (miss c)
    from run_miss [OF gate [unfolded nq_def] miss [unfolded nq_def]]
    have r: "run q w = dispatch nq (w\<lparr>cache := c\<rparr>)"
      by (simp add: nq_def)
    show ?thesis
    proof (cases rule: dispatch_cases [of nq "w\<lparr>cache := c\<rparr>"])
      case skip
      with r have "run q w = w\<lparr>cache := c, log := log w, observed := observed w\<rparr>" by simp
      then show ?thesis by (rule same) simp
    next
      case (go ac cs ov)
      with r have "run q w =
         w\<lparr>cache := c, inFlightQuery := Some nq, abortController := ac, controllers := cs,
           seq := seq w + 1,
           log := log w @ [(Some (seq w + 1), OnStart nq)],
           observed := ov,
           attempts := (attempts w)(seq w + 1 \<mapsto> Attempt nq Queued)\<rparr>" by simp
      then show ?thesis by (rule dispatched) simp
    qed
  next
    case (hit ts res)
    define lg where "lg = log w @ [(None, OnSuccess nq (NonNull res) True)]"
    define ov1 where "ov1 = observed w @ [getState w]"
    have lg: "lg = log w \<or> (\<exists>r. lg = log w @ [(None, OnSuccess nq r True)])"
      unfolding lg_def by blast
    note h = run_hit [OF gate [unfolded nq_def] hit(1) [unfolded nq_def], folded nq_def]
    show ?thesis
    proof (cases "refreshOnCache w")
      case False
      with h have "run q w = w\<lparr>cache := cache w, log := lg, observed := ov1\<rparr>"
        by (simp add: Let_def emit_def lg_def ov1_def)
      then show ?thesis using lg by (rule same)
    next
      case True
      with h have r: "run q w = dispatch nq (w\<lparr>log := lg, observed := ov1\<rparr>)"
        by (simp add: Let_def emit_def lg_def ov1_def)
      show ?thesis
      proof (cases rule: dispatch_cases [of nq "w\<lparr>log := lg, observed := ov1\<rparr>"])
        case skip
        with r have "run q w = w\<lparr>cache := cache w, log := lg, observed := ov1\<rparr>" by simp
        then show ?thesis using lg by (rule same)
      next
        case (go ac cs ov)
        with r have "run q w =
           w\<lparr>cache := cache w, inFlightQuery := Some nq, abortController := ac,
             controllers := cs, seq := seq w + 1,
             log := lg @ [(Some (seq w + 1), OnStart nq)],
             observed := ov,
             attempts := (attempts w)(seq w + 1 \<mapsto> Attempt nq Queued)\<rparr>" by simp
        then show ?thesis using lg by (rule dispatched)
      qed
    qed
  qed
qed

lemma fetchStart_queued:
  assumes "attempts w k = Some (Attempt nq Queued)"
  shows "fetchStart k w =
           w\<lparr>log := log w @ [(Some k, FetchCall nq (abortController w))],
             observed := observed w @ [getState w],
             attempts := (attempts w)(k \<mapsto> Attempt nq (Fetching (abortController w)))\<rparr>"
  using assms by (simp add: fetchStart_def setStage_def emit_def)

lemma fetchStart_idle:
  assumes "\<forall>nq. attempts w k \<noteq> Some (Attempt nq Queued)"
  shows "fetchStart k w = w"
proof (cases "attempts w k")
  case None
  then show ?thesis by (simp add: fetchStart_def)
next
  case (Some a)
  with assms have "stage a \<noteq> Queued" by (cases a) auto
  with Some show ?thesis by (simp add: fetchStart_def)
qed

lemma thenHandler_commit:
  assumes "attempts w k = Some (Attempt nq (Fetching sg))"
    and "inFlightQuery w = Some nq" and "k = seq w"
  shows "thenHandler k res w =
           w\<lparr>lastCompletedQuery := nq, lastSearchedQuery := nq, lastResult := res,
             cache := AList.update nq (now w, res) (cache w),
             log := log w @ [(Some k, OnSuccess nq res False)],
             observed := observed w
               @ [getState (w\<lparr>lastCompletedQuery := nq, lastResult := res,
                               cache := AList.update nq (now w, res) (cache w)\<rparr>)],
             attempts := (attempts w)(k \<mapsto> Attempt nq Handled)\<rparr>"
  using assms by (simp add: thenHandler_def setStage_def setCached_def emit_def getState_def)

lemma thenHandler_discard:
  assumes "attempts w k = Some (Attempt nq (Fetching sg))"
    and "inFlightQuery w \<noteq> Some nq \<or> k \<noteq> seq w"
  shows "thenHandler k res w = w\<lparr>attempts := (attempts w)(k \<mapsto> Attempt nq Handled)\<rparr>"
  using assms by (auto simp add: thenHandler_def setStage_def)

lemma thenHandler_idle:
  assumes "\<forall>nq sg. attempts w k \<noteq> Some (Attempt nq (Fetching sg))"
  shows "thenHandler k res w = w"
proof (cases "attempts w k")
  case None
  then show ?thesis by (simp add: thenHandler_def)
next
  case (Some a)
  with assms have "\<forall>sg. stage a \<noteq> Fetching sg" by (cases a) auto
  with Some show ?thesis by (cases "stage a") (simp_all add: thenHandler_def)
qed

lemma catchHandler_report:
  assumes "attempts w k = Some (Attempt nq (Fetching sg))"
    and "k = seq w" and "\<not> currentSignalAborted w" and "err_name err \<noteq> ''AbortError''"
  shows "catchHandler k err w =
           w\<lparr>log := log w @ [(Some k, OnError nq err)],
             observed := observed w @ [getState w],
             attempts := (attempts w)(k \<mapsto> Attempt nq Handled)\<rparr>"
  using assms by (simp add: catchHandler_def setStage_def emit_def getState_def)

lemma catchHandler_swallow:
  assumes "attempts w k = Some (Attempt nq (Fetching sg))"
    and "k \<noteq> seq w \<or> currentSignalAborted w \<or> err_name err = ''AbortError''"
  shows "catchHandler k err w = w\<lparr>attempts := (attempts w)(k \<mapsto> Attempt nq Handled)\<rparr>"
  using assms by (auto simp add: catchHandler_def setStage_def Let_def)

lemma catchHandler_idle:
  assumes "\<forall>nq sg. attempts w k \<noteq> Some (Attempt nq (Fetching sg))"
  shows "catchHandler k err w = w"
proof (cases "attempts w k")
  case None
  then show ?thesis by (simp add: catchHandler_def)
next
  case (Some a)
  with assms have "\<forall>sg. stage a \<noteq> Fetching sg" by (cases a) auto
  with Some show ?thesis by (cases "stage a") (simp_all add: catchHandler_def)
qed

lemma finallyHandler_fire:
  assumes "attempts w k = Some (Attempt nq Handled)" and "k = seq w"
  shows "finallyHandler k w =
           w\<lparr>inFlightQuery := None, abortController := None,
             log := log w @ [(Some k, OnFinally nq)],
             observed := observed w @ [getState (w\<lparr>inFlightQuery := None\<rparr>)],
             attempts := (attempts w)(k \<mapsto> Attempt nq Done)\<rparr>"
  using assms by (simp add: finallyHandler_def setStage_def emit_def getState_def)

lemma finallyHandler_skip:
  assumes "attempts w k = Some (Attempt nq Handled)" and "k \<noteq> seq w"
  shows "finallyHandler k w = w\<lparr>attempts := (attempts w)(k \<mapsto> Attempt nq Done)\<rparr>"
  using assms by (simp add: finallyHandler_def setStage_def)

lemma finallyHandler_idle:
  assumes "\<forall>nq. attempts w k \<noteq> Some (Attempt nq Handled)"
  shows "finallyHandler k w = w"
proof (cases "attempts w k")
  case None
  then show ?thesis by (simp add: finallyHandler_def)
next
  case (Some a)
  with assms have "stage a \<noteq> Handled" by (cases a) auto
  with Some show ?thesis by (simp add: finallyHandler_def)
qed

lemma setText_eq:
  "setText text w = w\<lparr>latestText := (case text of None \<Rightarrow> [] | Some s \<Rightarrow> s),
                       timerId := timerId (setText text w)\<rparr>"
  by (simp add: setText_def schedule_def clearTimer_eq Let_def)

lemma cancel_eq:
  "cancel w = w\<lparr>timerId := None, controllers := controllers (cancel w),
                inFlightQuery := None, abortController := None\<rparr>"
  by (cases "abortController w") (simp_all add: cancel_def abort_def clearTimer_eq)

lemma setOptions_eq:
  "\<exists>a b c d e. setOptions newOpts w =
      w\<lparr>minLength := a, debounceMs := b, cacheTTL := c, useCache := d, refreshOnCache := e\<rparr>"
proof (cases newOpts)
  case None
  have "w = w\<lparr>minLength := minLength w, debounceMs := debounceMs w, cacheTTL := cacheTTL w,
              useCache := useCache w, refreshOnCache := refreshOnCache w\<rparr>" by simp
  with None show ?thesis unfolding setOptions_def by (simp only: option.case) blast
next
  case (Some opts)
  have "setOptions newOpts w =
      w\<lparr>minLength := (case so_minLength opts of Some v \<Rightarrow> v | None \<Rightarrow> minLength w),
        debounceMs := (case so_debounceMs opts of Some v \<Rightarrow> v | None \<Rightarrow> debounceMs w),
        cacheTTL := (case so_cacheTTL opts of Some v \<Rightarrow> v | None \<Rightarrow> cacheTTL w),
        useCache := (case so_useCache opts of Some v \<Rightarrow> v | None \<Rightarrow> useCache w),
        refreshOnCache := (case so_refreshOnCache opts of Some v \<Rightarrow> v | None \<Rightarrow> refreshOnCache w)\<rparr>"
    using Some by (simp add: setOptions_def Let_def split: option.splits)
  then show ?thesis by blast
qed

lemma fetchStart_cases:
  obtains (idle) "fetchStart k w = w"
  | (start) nq where "attempts w k = Some (Attempt nq Queued)"
      "fetchStart k w =
         w\<lparr>log := log w @ [(Some k, FetchCall nq (abortController w))],
           observed := observed w @ [getState w],
           attempts := (attempts w)(k \<mapsto> Attempt nq (Fetching (abortController w)))\<rparr>"
proof (cases "\<exists>nq. attempts w k = Some (Attempt nq Queued)")
  case True
  then obtain nq where a: "attempts w k = Some (Attempt nq Queued)" by blast
  from a fetchStart_queued [OF a] show ?thesis by (rule start)
next
  case False
  then have "fetchStart k w = w" by (intro fetchStart_idle) simp
  then show ?thesis by (rule idle)
qed

lemma thenHandler_cases:
  obtains (idle) "thenHandler k res w = w"
  | (discard) nq sg where "attempts w k = Some (Attempt nq (Fetching sg))"
      "inFlightQuery w \<noteq> Some nq \<or> k \<noteq> seq w"
      "thenHandler k res w = w\<lparr>attempts := (attempts w)(k \<mapsto> Attempt nq Handled)\<rparr>"
  | (commit) nq sg where "attempts w k = Some (Attempt nq (Fetching sg))"
      "inFlightQuery w = Some nq" "k = seq w"
      "thenHandler k res w =
           w\<lparr>lastCompletedQuery := nq, lastSearchedQuery := nq, lastResult := res,
             cache := AList.update nq (now w, res) (cache w),
             log := log w @ [(Some k, OnSuccess nq res False)],
             observed := observed w
               @ [getState (w\<lparr>lastCompletedQuery := nq, lastResult := res,
                               cache := AList.update nq (now w, res) (cache w)\<rparr>)],
             attempts := (attempts w)(k \<mapsto> Attempt nq Handled)\<rparr>"
proof (cases "\<exists>nq sg. attempts w k = Some (Attempt nq (Fetching sg))")
  case False
  then have "thenHandler k res w = w" by (intro thenHandler_idle) simp
  then show ?thesis by (rule idle)
next
  case True
  then obtain nq sg where a: "attempts w k = Some (Attempt nq (Fetching sg))" by blast
  show ?thesis
  proof (cases "inFlightQuery w = Some nq \<and> k = seq w")
    case True
    then have i: "inFlightQuery w = Some nq" and k: "k = seq w" by blast+
    from a i k thenHandler_commit [OF a i k] show ?thesis by (rule commit)
  next
    case False
    then have g: "inFlightQuery w \<noteq> Some nq \<or> k \<noteq> seq w" by blast
    from a g thenHandler_discard [OF a g] show ?thesis by (rule discard)
  qed
qed

lemma catchHandler_cases:
  obtains (idle) "catchHandler k err w = w"
  | (swallow) nq sg where "attempts w k = Some (Attempt nq (Fetching sg))"
      "k \<noteq> seq w \<or> currentSignalAborted w \<or> err_name err = ''AbortError''"
      "catchHandler k err w = w\<lparr>attempts := (attempts w)(k \<mapsto> Attempt nq Handled)\<rparr>"
  | (report) nq sg where "attempts w k = Some (Attempt nq (Fetching sg))"
      "k = seq w" "\<not> currentSignalAborted w" "err_name err \<noteq> ''AbortError''"
      "catchHandler k err w =
           w\<lparr>log := log w @ [(Some k, OnError nq err)],
             observed := observed w @ [getState w],
             attempts := (attempts w)(k \<mapsto> Attempt nq Handled)\<rparr>"
proof (cases "\<exists>nq sg. attempts w k = Some (Attempt nq (Fetching sg))")
  case False
  then have "catchHandler k err w = w" by (intro catchHandler_idle) simp
  then show ?thesis by (rule idle)
next
  case True
  then obtain nq sg where a: "attempts w k = Some (Attempt nq (Fetching sg))" by blast
  show ?thesis
  proof (cases "k \<noteq> seq w \<or> currentSignalAborted w \<or> err_name err = ''AbortError''")
    case True
    from a True catchHandler_swallow [OF a True] show ?thesis by (rule swallow)
  next
    case False
    then have k: "k = seq w" and c: "\<not> currentSignalAborted w"
      and e: "err_name err \<noteq> ''AbortError''" by blast+
    from a k c e catchHandler_report [OF a k c e] show ?thesis by (rule report)
  qed
qed

lemma finallyHandler_cases:
  obtains (idle) "finallyHandler k w = w"
  | (skip) nq where "attempts w k = Some (Attempt nq Handled)" "k \<noteq> seq w"
      "finallyHandler k w = w\<lparr>attempts := (attempts w)(k \<mapsto> Attempt nq Done)\<rparr>"
  | (fire) nq where "attempts w k = Some (Attempt nq Handled)" "k = seq w"
      "finallyHandler k w =
           w\<lparr>inFlightQuery := None, abortController := None,
             log := log w @ [(Some k, OnFinally nq)],
             observed := observed w @ [getState (w\<lparr>inFlightQuery := None\<rparr>)],
             attempts := (attempts w)(k \<mapsto> Attempt nq Done)\<rparr>"
proof (cases "\<exists>nq. attempts w k = Some (Attempt nq Handled)")
  case False
  then have "finallyHandler k w = w" by (intro finallyHandler_idle) simp
  then show ?thesis by (rule idle)
next
  case True
  then obtain nq where a: "attempts w k = Some (Attempt nq Handled)" by blast
  show ?thesis
  proof (cases "k = seq w")
    case True
    from a True finallyHandler_fire [OF a True] show ?thesis by (rule fire)
  next
    case False
    from a False finallyHandler_skip [OF a False] show ?thesis by (rule skip)
  qed
qed

lemma timerFire_cases:
  obtains (idle) "timerFire w = w"
  | (fire) due where "timerId w = Some due" "due \<le> now w"
      "timerFire w = run (Some (latestText w)) (w\<lparr>timerId := None\<rparr>)"
proof (cases "timerId w")
  case None
  then have "timerFire w = w" by (simp add: timerFire_def)
  then show ?thesis by (rule idle)
next
  case (Some due)
  show ?thesis
  proof (cases "now w < due")
    case True
    with Some have "timerFire w = w" by (simp add: timerFire_def)
    then show ?thesis by (rule idle)
  next
    case False
    with Some have "timerFire w = run (Some (latestText w)) (w\<lparr>timerId := None\<rparr>)"
      by (simp add: timerFire_def Let_def)
    with Some False show ?thesis by (intro fire) auto
  qed
qed

lemma runImmediate_eq:
  "runImmediate text w =
     run (Some (case text of Some t \<Rightarrow> t | None \<Rightarrow> latestText w))
       (w\<lparr>latestText := (case text of Some t \<Rightarrow> t | None \<Rightarrow> latestText w), timerId := None\<rparr>)"
  by (cases "text") (simp_all add: runImmediate_def clearTimer_eq Let_def)

subsection \<open>What one event does to the counter, the log and the attempts\<close>

lemma run_view_cases:
  obtains (quiet) "seq (run q w) = seq w" "log (run q w) = log w" "attempts (run q w) = attempts w"
  | (hit) nq r where "seq (run q w) = seq w" "attempts (run q w) = attempts w"
      "log (run q w) = log w @ [(None, OnSuccess nq r True)]"
  | (dispatched) nq pre where "seq (run q w) = seq w + 1"
      "attempts (run q w) = (attempts w)(seq w + 1 \<mapsto> Attempt nq Queued)"
      "log (run q w) = log w @ pre @ [(Some (seq w + 1), OnStart nq)]"
      "pre = [] \<or> (\<exists>r. pre = [(None, OnSuccess nq r True)])"
proof (cases rule: run_cases [of q w])
  case (same c lg ov)
  from same(2) show ?thesis
  proof
    assume "lg = log w"
    with same(1) show ?thesis by (intro quiet) simp_all
  next
    assume "\<exists>r. lg = log w @ [(None, OnSuccess (normalizeQuery (case q of None \<Rightarrow> latestText w | Some t \<Rightarrow> t)) r True)]"
    then obtain r where "lg = log w @ [(None, OnSuccess (normalizeQuery (case q of None \<Rightarrow> latestText w | Some t \<Rightarrow> t)) r True)]"
      by blast
    with same(1) show ?thesis by (intro hit) simp_all
  qed
next
  case (dispatched c lg ac cs ov)
  define nq where "nq = normalizeQuery (case q of None \<Rightarrow> latestText w | Some t \<Rightarrow> t)"
  from dispatched(2) obtain pre where pre: "lg = log w @ pre"
    "pre = [] \<or> (\<exists>r. pre = [(None, OnSuccess nq r True)])"
    unfolding nq_def by auto
  have "seq (run q w) = seq w + 1"
      "attempts (run q w) = (attempts w)(seq w + 1 \<mapsto> Attempt nq Queued)"
      "log (run q w) = log w @ pre @ [(Some (seq w + 1), OnStart nq)]"
    using dispatched(1) pre(1) unfolding nq_def by simp_all
  then show ?thesis using pre(2) by (rule that(3))
qed

lemma exec_view_cases:
  obtains (quiet) "seq (exec ev w) = seq w" "log (exec ev w) = log w"
      "attempts (exec ev w) = attempts w"
  | (hit) nq r where "seq (exec ev w) = seq w" "attempts (exec ev w) = attempts w"
      "log (exec ev w) = log w @ [(None, OnSuccess nq r True)]"
  | (dispatched) nq pre where "seq (exec ev w) = seq w + 1"
      "attempts (exec ev w) = (attempts w)(seq w + 1 \<mapsto> Attempt nq Queued)"
      "log (exec ev w) = log w @ pre @ [(Some (seq w + 1), OnStart nq)]"
      "pre = [] \<or> (\<exists>r. pre = [(None, OnSuccess nq r True)])"
  | (progress) k nq st st' news where "seq (exec ev w) = seq w"
      "attempts w k = Some (Attempt nq st)"
      "attempts (exec ev w) = (attempts w)(k \<mapsto> Attempt nq st')"
      "log (exec ev w) = log w @ news"
      "progress_ok (seq w) k nq st st' news"
proof (cases ev)
  case (SetText t)
  have "seq (setText t w) = seq w" "log (setText t w) = log w"
    "attempts (setText t w) = attempts w"
    by (subst setText_eq, simp)+
  with SetText show ?thesis by (intro quiet) simp_all
next
  case (RunImmediate t)
  define w0 where "w0 = w\<lparr>latestText := (case t of Some s \<Rightarrow> s | None \<Rightarrow> latestText w),
                           timerId := None\<rparr>"
  define q where "q = Some (case t of Some s \<Rightarrow> s | None \<Rightarrow> latestText w)"
  have e: "exec ev w = run q w0"
    using RunImmediate by (simp add: runImmediate_eq w0_def q_def)
  have w0: "seq w0 = seq w" "log w0 = log w" "attempts w0 = attempts w"
    by (simp_all add: w0_def)
  show ?thesis
  proof (cases rule: run_view_cases [of q w0])
    case quiet
    then show ?thesis using e w0 that(1) by simp
  next
    case (hit nq r)
    then show ?thesis using e w0 that(2) by simp
  next
    case (dispatched nq pre)
    then show ?thesis using e w0 that(3) [of nq pre] by simp
  qed
next
  case Cancel
  have "seq (cancel w) = seq w" "log (cancel w) = log w" "attempts (cancel w) = attempts w"
    by (subst cancel_eq, simp)+
  with Cancel show ?thesis by (intro quiet) simp_all
next
  case (SetOptions newOpts)
  obtain a b c d e where "setOptions newOpts w =
      w\<lparr>minLength := a, debounceMs := b, cacheTTL := c, useCache := d, refreshOnCache := e\<rparr>"
    using setOptions_eq [of newOpts w] by blast
  with SetOptions show ?thesis by (intro quiet) simp_all
next
  case ClearCache
  then show ?thesis by (intro quiet) (simp_all add: clearCache_def)
next
  case (Tick d)
  then show ?thesis by (intro quiet) simp_all
next
  case TimerFire
  show ?thesis
  proof (cases rule: timerFire_cases [of w])
    case idle
    with TimerFire show ?thesis by (intro quiet) simp_all
  next
    case (fire due)
    define w0 where "w0 = w\<lparr>timerId := None\<rparr>"
    have e: "exec ev w = run (Some (latestText w)) w0"
      using TimerFire fire(3) by (simp add: w0_def)
    have w0: "seq w0 = seq w" "log w0 = log w" "attempts w0 = attempts w"
      by (simp_all add: w0_def)
    show ?thesis
    proof (cases rule: run_view_cases [of "Some (latestText w)" w0])
      case quiet
      then show ?thesis using e w0 that(1) by simp
    next
      case (hit nq r)
      then show ?thesis using e w0 that(2) by simp
    next
      case (dispatched nq pre)
      then show ?thesis using e w0 that(3) [of nq pre] by simp
    qed
  qed
next
  case (FetchStart k)
  show ?thesis
  proof (cases rule: fetchStart_cases [of k w])
    case idle
    with FetchStart show ?thesis by (intro quiet) simp_all
  next
    case (start nq)
    have "progress_ok (seq w) k nq Queued (Fetching (abortController w))
            [(Some k, FetchCall nq (abortController w))]"
      by (simp add: progress_ok_def)
    with start FetchStart show ?thesis
      by (intro progress [of k nq Queued "Fetching (abortController w)"
            "[(Some k, FetchCall nq (abortController w))]"]) simp_all
  qed
next
  case (Resolve k res)
  show ?thesis
  proof (cases rule: thenHandler_cases [of k res w])
    case idle
    with Resolve show ?thesis by (intro quiet) simp_all
  next
    case (discard nq sg)
    have "progress_ok (seq w) k nq (Fetching sg) Handled ([] :: (nat option \<times> 'a obs) list)"
      by (simp add: progress_ok_def)
    with discard Resolve show ?thesis
      by (intro progress [of k nq "Fetching sg" Handled "[]"]) simp_all
  next
    case (commit nq sg)
    have "progress_ok (seq w) k nq (Fetching sg) Handled [(Some k, OnSuccess nq res False)]"
      using commit(3) by (simp add: progress_ok_def)
    with commit Resolve show ?thesis
      by (intro progress [of k nq "Fetching sg" Handled "[(Some k, OnSuccess nq res False)]"])
        simp_all
  qed
next
  case (Reject k err)
  show ?thesis
  proof (cases rule: catchHandler_cases [of k err w])
    case idle
    with Reject show ?thesis by (intro quiet) simp_all
  next
    case (swallow nq sg)
    have "progress_ok (seq w) k nq (Fetching sg) Handled ([] :: (nat option \<times> 'a obs) list)"
      by (simp add: progress_ok_def)
    with swallow Reject show ?thesis
      by (intro progress [of k nq "Fetching sg" Handled "[]"]) simp_all
  next
    case (report nq sg)
    have "progress_ok (seq w) k nq (Fetching sg) Handled
            ([(Some k, OnError nq err)] :: (nat option \<times> 'a obs) list)"
      using report(2) by (simp add: progress_ok_def)
    with report Reject show ?thesis
      by (intro progress [of k nq "Fetching sg" Handled "[(Some k, OnError nq err)]"])
        simp_all
  qed
next
  case (Finally k)
  show ?thesis
  proof (cases rule: finallyHandler_cases [of k w])
    case idle
    with Finally show ?thesis by (intro quiet) simp_all
  next
    case (skip nq)
    have "progress_ok (seq w) k nq Handled Done ([] :: (nat option \<times> 'a obs) list)"
      by (simp add: progress_ok_def)
    with skip Finally show ?thesis
      by (intro progress [of k nq Handled Done "[]"]) simp_all
  next
    case (fire nq)
    have "progress_ok (seq w) k nq Handled Done
            ([(Some k, OnFinally nq)] :: (nat option \<times> 'a obs) list)"
      using fire(2) by (simp add: progress_ok_def)
    with fire Finally show ?thesis
      by (intro progress [of k nq Handled Done "[(Some k, OnFinally nq)]"]) simp_all
  qed
qed

lemma seq_exec_mono: "seq w \<le> seq (exec ev w)"
  by (cases rule: exec_view_cases [of ev w]) simp_all

lemma seq_run_events_mono: "seq w \<le> seq (run_events evs w)"
  unfolding run_events_def
proof (induction evs arbitrary: w)
  case Nil
  show ?case by simp
next
  case (Cons ev evs)
  have "seq w \<le> seq (exec ev w)" by (rule seq_exec_mono)
  also have "\<dots> \<le> seq (fold exec evs (exec ev w))" by (rule Cons.IH)
  finally show ?case by simp
qed

lemma attempts_bounded_exec:
  assumes "attempts_bounded w"
  shows "attempts_bounded (exec ev w)"
proof (cases rule: exec_view_cases [of ev w])
  case quiet
  with assms show ?thesis by (simp add: attempts_bounded_def)
next
  case (hit nq r)
  with assms show ?thesis by (simp add: attempts_bounded_def)
next
  case (dispatched nq pre)
  with assms show ?thesis by (auto simp add: attempts_bounded_def le_Suc_eq)
next
  case (progress k nq st st' news)
  with assms show ?thesis by (auto simp add: attempts_bounded_def)
qed

lemma attempts_bounded_run_events:
  "attempts_bounded w \<Longrightarrow> attempts_bounded (run_events evs w)"
  unfolding run_events_def
  by (induction evs arbitrary: w) (simp_all add: attempts_bounded_exec)

lemma attempts_bounded_session:
  assumes "session env opts evs = Inr w"
  shows "attempts_bounded w"
proof -
  from assms obtain w0 where c: "createOrchestrator env opts = Inr w0"
    and w: "w = run_events evs w0"
    by (auto simp: session_def split: sum.splits)
  from c have "attempts w0 = Map.empty"
    by (auto simp: createOrchestrator_def Let_def split: if_splits)
  then have "attempts_bounded w0" by (simp add: attempts_bounded_def)
  then show ?thesis unfolding w by (rule attempts_bounded_run_events)
qed

lemma successes_exec:
  assumes "k < seq w"
  shows "successes_of k (log (exec ev w)) = successes_of k (log w)"
proof (cases rule: exec_view_cases [of ev w])
  case quiet
  then show ?thesis by simp
next
  case (hit nq r)
  then show ?thesis by (simp add: successes_of_def)
next
  case (dispatched nq pre)
  then show ?thesis by (auto simp add: successes_of_def is_success_def)
next
  case (progress j nq st st' news)
  from progress(5) assms have "successes_of k news = []"
    by (auto simp add: progress_ok_def successes_of_def is_success_def)
  with progress(4) show ?thesis by (simp add: successes_of_def)
qed

lemma successes_run_events:
  assumes "k < seq w"
  shows "successes_of k (log (run_events evs w)) = successes_of k (log w)"
  using assms unfolding run_events_def
proof (induction evs arbitrary: w)
  case Nil
  show ?case by simp
next
  case (Cons ev evs)
  from Cons.prems seq_exec_mono [of w ev] have "k < seq (exec ev w)" by simp
  from Cons.IH [OF this] successes_exec [OF Cons.prems, of ev] show ?case by simp
qed




lemmas eval_defs = run_events_def runImmediate_def run_def dispatch_def setText_def schedule_def
  clearTimer_eq getCached_def setCached_def cancel_def abort_def emit_def truthy_def
  fetchStart_def thenHandler_def catchHandler_def finallyHandler_def timerFire_def setStage_def
  currentSignalAborted_def setOptions_def clearCache_def getState_def fresh_world_def Let_def

lemma norm_foo: "normalizeQuery ''foo'' = ''foo''"
  by code_simp

lemma norm_bar: "normalizeQuery ''bar'' = ''bar''"
  by code_simp

subsection \<open>The length gate\<close>

text \<open>
  Claim C7. For every input \<open>q\<close> whose normalised form is shorter than \<open>minLength\<close>,
  \<open>setText(q)\<close> and \<open>runImmediate(q)\<close> only record the text and clear the pending timer:
  no callback is logged, no attempt is dispatched (so fetch is never invoked on their
  account), and no timer is left that could dispatch one later.
\<close>

theorem length_gate_silent:
  assumes "int (length (normalizeQuery q)) < minLength w"
  shows "exec (SetText (Some q)) w = w\<lparr>latestText := q, timerId := None\<rparr>
       \<and> exec (RunImmediate (Some q)) w = w\<lparr>latestText := q, timerId := None\<rparr>
       \<and> log (exec (SetText (Some q)) w) = log w
       \<and> attempts (exec (SetText (Some q)) w) = attempts w
       \<and> log (exec (RunImmediate (Some q)) w) = log w
       \<and> attempts (exec (RunImmediate (Some q)) w) = attempts w
       \<and> exec TimerFire (exec (SetText (Some q)) w) = exec (SetText (Some q)) w
       \<and> exec TimerFire (exec (RunImmediate (Some q)) w) = exec (RunImmediate (Some q)) w"
proof -
  have st: "exec (SetText (Some q)) w = w\<lparr>latestText := q, timerId := None\<rparr>"
    using assms by (simp add: setText_def schedule_def clearTimer_eq Let_def)
  have ri: "exec (RunImmediate (Some q)) w = w\<lparr>latestText := q, timerId := None\<rparr>"
    using assms by (simp add: runImmediate_def run_def clearTimer_eq Let_def)
  show ?thesis
    unfolding st ri by (simp add: timerFire_def)
qed

theorem length_gate_silent_witness:
  "int (length (normalizeQuery ''hi'')) < minLength fresh_world
   \<and> exec (SetText (Some ''hi'')) fresh_world = fresh_world\<lparr>latestText := ''hi'', timerId := None\<rparr>
   \<and> exec (RunImmediate (Some ''hi'')) fresh_world
       = fresh_world\<lparr>latestText := ''hi'', timerId := None\<rparr>
   \<and> log (exec (SetText (Some ''hi'')) fresh_world) = []
   \<and> log (exec (RunImmediate (Some ''hi'')) fresh_world) = []"
proof -
  have h: "int (length (normalizeQuery ''hi'')) < minLength fresh_world"
    by (simp add: norm_hi fresh_world_def)
  from length_gate_silent [OF h] h show ?thesis
    by (simp add: fresh_world_def)
qed

subsection \<open>The constructor and what public calls throw\<close>









subsection \<open>The sequence guard\<close>

text \<open>
  Claim C1. Let attempt \<open>k\<close> be dispatched and superseded in a reachable world \<open>w\<close>: its
  captured sequence number is no longer the counter. Then, whatever events follow and in
  whatever order the promises settle, \<open>k\<close> stays superseded, the resolution of its fetch
  promise changes neither \<open>lastResult\<close> nor \<open>lastCompletedQuery\<close> and logs nothing, and
  the \<open>onSuccess\<close> entries of \<open>k\<close> in the log never grow.
\<close>

theorem superseded_resolution_inert:
  assumes "session env opts evs = Inr w" and "attempts w k = Some a" and "k \<noteq> seq w"
  shows "k \<noteq> seq (run_events evs' w)
       \<and> lastResult (exec (Resolve k res) (run_events evs' w)) = lastResult (run_events evs' w)
       \<and> lastCompletedQuery (exec (Resolve k res) (run_events evs' w))
           = lastCompletedQuery (run_events evs' w)
       \<and> log (exec (Resolve k res) (run_events evs' w)) = log (run_events evs' w)
       \<and> successes_of k (log (run_events evs' w)) = successes_of k (log w)"
proof -
  define w' where "w' = run_events evs' w"
  from assms(1) have "attempts_bounded w" by (rule attempts_bounded_session)
  with assms(2) have "k \<le> seq w" by (simp add: attempts_bounded_def)
  with assms(3) have lt: "k < seq w" by simp
  with seq_run_events_mono [of w evs'] have lt': "k < seq w'" by (simp add: w'_def)
  have inert: "lastResult (thenHandler k res w') = lastResult w'
       \<and> lastCompletedQuery (thenHandler k res w') = lastCompletedQuery w'
       \<and> log (thenHandler k res w') = log w'"
  proof (cases rule: thenHandler_cases [of k res w'])
    case idle
    then show ?thesis by simp
  next
    case (discard nq sg)
    then show ?thesis by simp
  next
    case (commit nq sg)
    with lt' show ?thesis by simp
  qed
  from lt have "successes_of k (log w') = successes_of k (log w)"
    unfolding w'_def by (rule successes_run_events)
  with inert lt' show ?thesis by (simp add: w'_def)
qed

theorem superseded_resolution_inert_witness:
  "session browser_env (Some default_options)
      [RunImmediate (Some ''foo''), FetchStart 1, RunImmediate (Some ''bar''), FetchStart 2]
     = Inr (run_events
        [RunImmediate (Some ''foo''), FetchStart 1, RunImmediate (Some ''bar''), FetchStart 2]
        fresh_world)
   \<and> attempts (run_events
        [RunImmediate (Some ''foo''), FetchStart 1, RunImmediate (Some ''bar''), FetchStart 2]
        fresh_world) 1 = Some (Attempt ''foo'' (Fetching (Some 0)))
   \<and> 1 \<noteq> seq (run_events
        [RunImmediate (Some ''foo''), FetchStart 1, RunImmediate (Some ''bar''), FetchStart 2]
        fresh_world)
   \<and> lastResult (exec (Resolve 1 (NonNull 7)) (run_events [Resolve 2 (NonNull 8), Finally 2] (run_events
        [RunImmediate (Some ''foo''), FetchStart 1, RunImmediate (Some ''bar''), FetchStart 2]
        fresh_world))) = NonNull 8
   \<and> successes_of 1 (log (run_events [Resolve 2 (NonNull 8), Finally 2] (run_events
        [RunImmediate (Some ''foo''), FetchStart 1, RunImmediate (Some ''bar''), FetchStart 2]
        fresh_world))) = []"
proof -
  define w where "w = run_events
        [RunImmediate (Some ''foo''), FetchStart 1, RunImmediate (Some ''bar''), FetchStart 2]
        fresh_world"
  have s: "session browser_env (Some default_options)
      [RunImmediate (Some ''foo''), FetchStart 1, RunImmediate (Some ''bar''), FetchStart 2]
     = Inr w"
    by (simp add: session_default w_def)
  have a: "attempts w 1 = Some (Attempt ''foo'' (Fetching (Some 0)))"
    unfolding w_def by (simp add: eval_defs norm_foo norm_bar)
  have q: "1 \<noteq> seq w"
    unfolding w_def by (simp add: eval_defs norm_foo norm_bar)
  have l: "lastResult (run_events [Resolve 2 (NonNull 8), Finally 2] w) = NonNull 8"
    unfolding w_def by (simp add: eval_defs norm_foo norm_bar)
  have z: "successes_of 1 (log w) = []"
    unfolding w_def by (simp add: eval_defs norm_foo norm_bar successes_of_def is_success_def)
  from superseded_resolution_inert [OF s a q, of "[Resolve 2 (NonNull 8), Finally 2]" "NonNull 7"] s a q l z
  show ?thesis unfolding w_def by simp
qed

subsection \<open>onFinally\<close>






subsection \<open>runImmediate\<close>

lemma norm_hello_bang: "normalizeQuery ''hello!'' = ''hello!''"
  by code_simp

lemma near_hello_bang: "nearDuplicate ''hello!'' ''hello''"
  by (simp add: nearDuplicate_def startsWith_def slice0_def)

lemma getCached_miss:
  assumes "\<not> useCache w \<or> map_of (cache w) nq = None"
  shows "getCached nq w = (Null, w)"
  using assms by (auto simp add: getCached_def)

lemma run_dispatches:
  fixes w :: "'r world"
  assumes "normalizeQuery t \<noteq> []" and "minLength w \<le> int (length (normalizeQuery t))"
    and "inFlightQuery w \<noteq> Some (normalizeQuery t)"
    and "getCached (normalizeQuery t) w = (Null, w1)"
    and "w1 = w\<lparr>cache := c\<rparr>"
  shows "\<exists>ac cs ov. run (Some t) w =
           w\<lparr>cache := c, inFlightQuery := Some (normalizeQuery t), abortController := ac,
             controllers := cs, seq := seq w + 1,
             log := log w @ [(Some (seq w + 1), OnStart (normalizeQuery t))],
             observed := ov,
             attempts := (attempts w)(seq w + 1 \<mapsto> Attempt (normalizeQuery t) Queued)\<rparr>"
proof -
  have r: "run (Some t) w = dispatch (normalizeQuery t) w1"
    using assms(1,2,4) by (simp add: run_def Let_def)
  have "\<not> (truthy (inFlightQuery w1) \<and> inFlightQuery w1 = Some (normalizeQuery t))"
    using assms(3,5) by simp
  from dispatch_go [OF this] obtain ac cs ov where
    "dispatch (normalizeQuery t) w1 =
           w1\<lparr>inFlightQuery := Some (normalizeQuery t), abortController := ac,
             controllers := cs, seq := seq w1 + 1,
             log := log w1 @ [(Some (seq w1 + 1), OnStart (normalizeQuery t))],
             observed := ov,
             attempts := (attempts w1)(seq w1 + 1 \<mapsto> Attempt (normalizeQuery t) Queued)\<rparr>"
    by blast
  with r assms(5) have "run (Some t) w =
           w\<lparr>cache := c, inFlightQuery := Some (normalizeQuery t), abortController := ac,
             controllers := cs, seq := seq w + 1,
             log := log w @ [(Some (seq w + 1), OnStart (normalizeQuery t))],
             observed := ov,
             attempts := (attempts w)(seq w + 1 \<mapsto> Attempt (normalizeQuery t) Queued)\<rparr>"
    by simp
  then show ?thesis by blast
qed

lemma after_hello_eq:
  "after_hello =
     \<lparr>minLength = 3, debounceMs = 75, cacheTTL = 60000, useCache = True,
      refreshOnCache = False, latestText = ''hello'', lastCompletedQuery = ''hello'',
      lastResult = NonNull 7, lastSearchedQuery = ''hello'', inFlightQuery = None,
      abortController = None, timerId = None, seq = 1, cache = [(''hello'', 0, NonNull 7)],
      now = 0, hasAbortController = True, controllers = [False],
      attempts = [1 \<mapsto> Attempt ''hello'' Done],
      log = [(Some 1, OnStart ''hello''), (Some 1, FetchCall ''hello'' (Some 0)),
             (Some 1, OnSuccess ''hello'' (NonNull 7) False), (Some 1, OnFinally ''hello'')],
      observed =
        [\<lparr>st_latestText = ''hello'', st_lastCompletedQuery = [], st_lastResult = Null,
          st_inFlightQuery = Some ''hello'', st_isInFlight = True, st_cacheSize = 0\<rparr>,
         \<lparr>st_latestText = ''hello'', st_lastCompletedQuery = [], st_lastResult = Null,
          st_inFlightQuery = Some ''hello'', st_isInFlight = True, st_cacheSize = 0\<rparr>,
         \<lparr>st_latestText = ''hello'', st_lastCompletedQuery = ''hello'',
          st_lastResult = NonNull 7, st_inFlightQuery = Some ''hello'', st_isInFlight = True,
          st_cacheSize = Suc 0\<rparr>,
         \<lparr>st_latestText = ''hello'', st_lastCompletedQuery = ''hello'',
          st_lastResult = NonNull 7, st_inFlightQuery = None, st_isInFlight = False,
          st_cacheSize = Suc 0\<rparr>]\<rparr>"
  by (simp add: after_hello_def eval_defs norm_hello)

lemma session_after_hello:
  "session browser_env (Some default_options)
     [RunImmediate (Some ''hello''), FetchStart 1, Resolve 1 (NonNull 7), Finally 1] = Inr after_hello"
  by (simp add: session_default after_hello_def)

text \<open>
  Claim C3, as stated, fails: the near-duplicate filter is part of \<open>schedule\<close> only.
  After a completed search for \<open>hello\<close>, the query \<open>hello!\<close> is a one-character extension
  of \<open>lastSearchedQuery\<close> and a near-duplicate of it, and \<open>runImmediate("hello!")\<close>
  dispatches attempt 2, whose first microtask calls fetch.
\<close>

theorem runImmediate_ignores_near_duplicate:
  "map_sum id lastSearchedQuery
     (session browser_env (Some default_options)
        [RunImmediate (Some ''hello''), FetchStart 1, Resolve 1 (NonNull (7::nat)), Finally 1])
     = Inr ''hello''
   \<and> normalizeQuery ''hello!'' = ''hello'' @ ''!''
   \<and> nearDuplicate (normalizeQuery ''hello!'') ''hello''
   \<and> map_sum id log
     (session browser_env (Some default_options)
        [RunImmediate (Some ''hello''), FetchStart 1, Resolve 1 (NonNull (7::nat)), Finally 1,
         RunImmediate (Some ''hello!''), FetchStart 2])
     = Inr [(Some 1, OnStart ''hello''), (Some 1, FetchCall ''hello'' (Some 0)),
            (Some 1, OnSuccess ''hello'' (NonNull 7) False), (Some 1, OnFinally ''hello''),
            (Some 2, OnStart ''hello!''), (Some 2, FetchCall ''hello!'' (Some 1))]"
  by (simp add: session_default eval_defs norm_hello norm_hello_bang near_hello_bang)

text \<open>
  Claim C3, amended. \<open>runImmediate(text)\<close> clears the pending timer and calls \<open>run\<close> in the
  same step. It obeys the length gate (below it, nothing but the text and the timer
  changes) and in-flight dedup (a query equal to the in-flight one dispatches nothing), but
  not the near-duplicate filter: a query that passes the length gate, is not in flight and
  has no cache entry is dispatched, and fetch is invoked with it, whatever
  \<open>lastSearchedQuery\<close> is. The near-duplicate filter belongs to \<open>setText\<close>: for a
  near-duplicate of \<open>lastSearchedQuery\<close>, \<open>setText\<close> records the text and arms no timer.
\<close>

theorem runImmediate_gates:
  fixes w :: "'r world"
  shows "exec (RunImmediate (Some t)) w = run (Some t) (w\<lparr>latestText := t, timerId := None\<rparr>)
       \<and> (normalizeQuery t = [] \<or> int (length (normalizeQuery t)) < minLength w \<longrightarrow>
            exec (RunImmediate (Some t)) w = w\<lparr>latestText := t, timerId := None\<rparr>)
       \<and> (inFlightQuery w = Some (normalizeQuery t) \<longrightarrow>
            attempts (exec (RunImmediate (Some t)) w) = attempts w
          \<and> seq (exec (RunImmediate (Some t)) w) = seq w)
       \<and> (normalizeQuery t \<noteq> [] \<and> minLength w \<le> int (length (normalizeQuery t))
          \<and> inFlightQuery w \<noteq> Some (normalizeQuery t)
          \<and> (\<not> useCache w \<or> map_of (cache w) (normalizeQuery t) = None) \<longrightarrow>
            seq (exec (RunImmediate (Some t)) w) = seq w + 1
          \<and> attempts (exec (RunImmediate (Some t)) w)
              = (attempts w)(seq w + 1 \<mapsto> Attempt (normalizeQuery t) Queued)
          \<and> log (exec (RunImmediate (Some t)) w)
              = log w @ [(Some (seq w + 1), OnStart (normalizeQuery t))]
          \<and> (\<exists>sg. log (exec (FetchStart (seq w + 1)) (exec (RunImmediate (Some t)) w))
              = log w @ [(Some (seq w + 1), OnStart (normalizeQuery t)),
                         (Some (seq w + 1), FetchCall (normalizeQuery t) sg)]))
       \<and> (nearDuplicate (normalizeQuery t) (lastSearchedQuery w) \<longrightarrow>
            exec (SetText (Some t)) w = w\<lparr>latestText := t, timerId := None\<rparr>)"
proof -
  define nq where "nq = normalizeQuery t"
  define w0 where "w0 = w\<lparr>latestText := t, timerId := None\<rparr>"
  have e: "exec (RunImmediate (Some t)) w = run (Some t) w0"
    by (simp add: runImmediate_eq w0_def)
  have gate: "exec (RunImmediate (Some t)) w = w0"
    if "nq = [] \<or> int (length nq) < minLength w"
    using that unfolding e by (simp add: run_def Let_def nq_def w0_def)
  have dedup: "attempts (exec (RunImmediate (Some t)) w) = attempts w
          \<and> seq (exec (RunImmediate (Some t)) w) = seq w"
    if i: "inFlightQuery w = Some nq"
  proof (cases "nq = [] \<or> int (length nq) < minLength w")
    case True
    from gate [OF True] show ?thesis by (simp add: w0_def)
  next
    case False
    then have t: "truthy (Some nq)" by (simp add: truthy_def)
    have d: "dispatch nq w' = w'" if "inFlightQuery w' = Some nq" for w' :: "'r world"
      using that t by (simp add: dispatch_def)
    show ?thesis
    proof (cases rule: getCached_cases [of nq w0])
      case (miss c)
      with False have "run (Some t) w0 = dispatch nq (w0\<lparr>cache := c\<rparr>)"
        by (simp add: run_def Let_def nq_def w0_def)
      also have "\<dots> = w0\<lparr>cache := c\<rparr>" using i by (intro d) (simp add: w0_def)
      finally show ?thesis unfolding e by (simp add: w0_def)
    next
      case (hit ts res)
      show ?thesis
      proof (cases "refreshOnCache w0")
        case False
        with hit \<open>\<not> (nq = [] \<or> int (length nq) < minLength w)\<close>
        have "run (Some t) w0 = emit None (OnSuccess nq (NonNull res) True) w0"
          by (simp add: run_def Let_def nq_def w0_def emit_def)
        then show ?thesis unfolding e by (simp add: w0_def emit_def)
      next
        case True
        with hit \<open>\<not> (nq = [] \<or> int (length nq) < minLength w)\<close>
        have "run (Some t) w0 = dispatch nq (emit None (OnSuccess nq (NonNull res) True) w0)"
          by (simp add: run_def Let_def nq_def w0_def emit_def)
        also have "\<dots> = emit None (OnSuccess nq (NonNull res) True) w0"
          using i by (intro d) (simp add: w0_def emit_def)
        finally show ?thesis unfolding e by (simp add: w0_def emit_def)
      qed
    qed
  qed
  have go: "seq (exec (RunImmediate (Some t)) w) = seq w + 1
          \<and> attempts (exec (RunImmediate (Some t)) w)
              = (attempts w)(seq w + 1 \<mapsto> Attempt nq Queued)
          \<and> log (exec (RunImmediate (Some t)) w) = log w @ [(Some (seq w + 1), OnStart nq)]
          \<and> (\<exists>sg. log (exec (FetchStart (seq w + 1)) (exec (RunImmediate (Some t)) w))
              = log w @ [(Some (seq w + 1), OnStart nq), (Some (seq w + 1), FetchCall nq sg)])"
    if h: "nq \<noteq> [] \<and> minLength w \<le> int (length nq) \<and> inFlightQuery w \<noteq> Some nq
          \<and> (\<not> useCache w \<or> map_of (cache w) nq = None)"
  proof -
    from h have m: "getCached (normalizeQuery t) w0 = (Null, w0)"
      by (intro getCached_miss) (simp add: w0_def nq_def)
    have "\<exists>ac cs ov. run (Some t) w0 =
           w0\<lparr>cache := cache w0, inFlightQuery := Some (normalizeQuery t), abortController := ac,
             controllers := cs, seq := seq w0 + 1,
             log := log w0 @ [(Some (seq w0 + 1), OnStart (normalizeQuery t))],
             observed := ov,
             attempts := (attempts w0)(seq w0 + 1 \<mapsto> Attempt (normalizeQuery t) Queued)\<rparr>"
      using h by (intro run_dispatches [OF _ _ _ m]) (simp_all add: w0_def nq_def)
    then obtain ac cs ov where r: "run (Some t) w0 =
           w0\<lparr>cache := cache w0, inFlightQuery := Some nq, abortController := ac,
             controllers := cs, seq := seq w0 + 1,
             log := log w0 @ [(Some (seq w0 + 1), OnStart nq)],
             observed := ov,
             attempts := (attempts w0)(seq w0 + 1 \<mapsto> Attempt nq Queued)\<rparr>"
      unfolding nq_def by blast
    define w' where "w' = run (Some t) w0"
    have f: "seq w' = seq w + 1" "attempts w' = (attempts w)(seq w + 1 \<mapsto> Attempt nq Queued)"
      "log w' = log w @ [(Some (seq w + 1), OnStart nq)]" "abortController w' = ac"
      unfolding w'_def r by (simp_all add: w0_def)
    from f(2) have a: "attempts w' (seq w + 1) = Some (Attempt nq Queued)" by simp
    have "log (fetchStart (seq w + 1) w')
              = log w @ [(Some (seq w + 1), OnStart nq), (Some (seq w + 1), FetchCall nq ac)]"
      unfolding fetchStart_queued [OF a] using f by simp
    with f show ?thesis unfolding e w'_def [symmetric] by auto
  qed
  have st: "exec (SetText (Some t)) w = w0" if "nearDuplicate nq (lastSearchedQuery w)"
    using that by (simp add: setText_def schedule_def clearTimer_eq Let_def nq_def w0_def)
  from e gate dedup go st show ?thesis unfolding nq_def w0_def by blast
qed

theorem runImmediate_gates_witness:
  "nearDuplicate (normalizeQuery ''hello!'') (lastSearchedQuery after_hello)
   \<and> normalizeQuery ''hello!'' \<noteq> []
   \<and> minLength after_hello \<le> int (length (normalizeQuery ''hello!''))
   \<and> inFlightQuery after_hello \<noteq> Some (normalizeQuery ''hello!'')
   \<and> map_of (cache after_hello) (normalizeQuery ''hello!'') = None
   \<and> seq (exec (RunImmediate (Some ''hello!'')) after_hello) = 2
   \<and> attempts (exec (RunImmediate (Some ''hello!'')) after_hello) 2
       = Some (Attempt ''hello!'' Queued)
   \<and> exec (SetText (Some ''hello!'')) after_hello
       = after_hello\<lparr>latestText := ''hello!'', timerId := None\<rparr>"
proof -
  have n: "nearDuplicate (normalizeQuery ''hello!'') (lastSearchedQuery after_hello)"
    by (simp add: after_hello_eq norm_hello_bang near_hello_bang)
  have h: "normalizeQuery ''hello!'' \<noteq> []
      \<and> minLength after_hello \<le> int (length (normalizeQuery ''hello!''))
      \<and> inFlightQuery after_hello \<noteq> Some (normalizeQuery ''hello!'')
      \<and> (\<not> useCache after_hello \<or> map_of (cache after_hello) (normalizeQuery ''hello!'') = None)"
    by (simp add: after_hello_eq norm_hello_bang)
  have m: "map_of (cache after_hello) (normalizeQuery ''hello!'') = None"
    by (simp add: after_hello_eq norm_hello_bang)
  note t = runImmediate_gates [of "''hello!''" after_hello]
  from t h have "seq (exec (RunImmediate (Some ''hello!'')) after_hello) = seq after_hello + 1
          \<and> attempts (exec (RunImmediate (Some ''hello!'')) after_hello)
              = (attempts after_hello)(seq after_hello + 1 \<mapsto> Attempt (normalizeQuery ''hello!'') Queued)"
    by blast
  then have "seq (exec (RunImmediate (Some ''hello!'')) after_hello) = 2"
      "attempts (exec (RunImmediate (Some ''hello!'')) after_hello) 2
       = Some (Attempt ''hello!'' Queued)"
    by (simp_all add: after_hello_eq norm_hello_bang)
  moreover from t n have "exec (SetText (Some ''hello!'')) after_hello
       = after_hello\<lparr>latestText := ''hello!'', timerId := None\<rparr>"
    by blast
  ultimately show ?thesis using n h m by blast
qed

subsection \<open>Expiry of cache entries\<close>

lemma norm_weather: "normalizeQuery ''weather'' = ''weather''"
  by code_simp

lemma near_hello_weather: "\<not> nearDuplicate ''hello'' ''weather''"
  by (simp add: nearDuplicate_def startsWith_def slice0_def)

lemma getCached_expired:
  assumes "map_of (cache w) nq = Some (ts, r)" and "now w - ts > cacheTTL w"
  shows "getCached nq w
           = (Null, w\<lparr>cache := (if useCache w then AList.delete nq (cache w) else cache w)\<rparr>)"
  using assms by (simp add: getCached_def)

lemma setText_arms_iff:
  "timerId (setText (Some q) w) \<noteq> None \<longleftrightarrow>
     (normalizeQuery q \<noteq> [] \<and> minLength w \<le> int (length (normalizeQuery q))
      \<and> normalizeQuery q \<noteq> lastSearchedQuery w \<and> Some (normalizeQuery q) \<noteq> inFlightQuery w
      \<and> \<not> nearDuplicate (normalizeQuery q) (lastSearchedQuery w))"
  by (auto simp add: setText_def schedule_def clearTimer_eq Let_def)

lemma session_stale_hello:
  "session browser_env (Some default_options)
     [RunImmediate (Some ''hello''), FetchStart 1, Resolve 1 (NonNull 7), Finally 1,
      RunImmediate (Some ''weather''), FetchStart 2, Resolve 2 (NonNull 8), Finally 2,
      Tick 60001, SetText (Some ''hello''), Tick 75] = Inr stale_hello"
  by (simp add: session_default stale_hello_def after_hello_def run_events_def)

lemma stale_hello_fields:
  "useCache stale_hello" "map_of (cache stale_hello) ''hello'' = Some (0, NonNull 7)"
  "now stale_hello = 60076" "cacheTTL stale_hello = 60000" "latestText stale_hello = ''hello''"
  "timerId stale_hello = Some 60076" "minLength stale_hello = 3"
  "inFlightQuery stale_hello = None" "seq stale_hello = 2"
  "lastSearchedQuery stale_hello = ''weather''"
  by (simp_all add: stale_hello_def after_hello_eq eval_defs norm_weather norm_hello
      nearDuplicate_def startsWith_def slice0_def)

text \<open>
  Claim C4, as stated, fails: \<open>schedule\<close> skips a query equal to \<open>lastSearchedQuery\<close>
  before any cache lookup. After a search for \<open>hello\<close> (cached at time 75) and 60001 more
  milliseconds, \<open>setText("hello")\<close> arms no timer, and the log still holds the single fetch
  call of the first search after the debounce delay has passed.
\<close>

theorem stale_entry_same_query_not_refetched:
  "map_sum id (\<lambda>w. (map_of (cache w) ''hello'', now w, cacheTTL w, timerId w))
     (session browser_env (Some default_options)
        [SetText (Some ''hello''), Tick 75, TimerFire, FetchStart 1, Resolve 1 (NonNull (7::nat)),
         Finally 1, Tick 60001, SetText (Some ''hello'')])
     = Inr (Some (75, NonNull 7), 60076, 60000, None)
   \<and> map_sum id log
     (session browser_env (Some default_options)
        [SetText (Some ''hello''), Tick 75, TimerFire, FetchStart 1, Resolve 1 (NonNull (7::nat)),
         Finally 1, Tick 60001, SetText (Some ''hello''), Tick 75, TimerFire])
     = Inr [(Some 1, OnStart ''hello''), (Some 1, FetchCall ''hello'' (Some 0)),
            (Some 1, OnSuccess ''hello'' (NonNull 7) False), (Some 1, OnFinally ''hello'')]"
  by (simp add: session_default eval_defs norm_hello nearDuplicate_def startsWith_def slice0_def)

text \<open>
  Claim C4, amended. Let the cache entry of \<open>q\<close> be older than \<open>cacheTTL\<close>, and let the
  timer armed by \<open>setText(q)\<close> be due, with \<open>q\<close> past the length gate and not in flight.
  Then the firing of the timer is a cache miss, whatever \<open>useCache\<close> is: no cached success is
  logged, an attempt for \<open>q\<close> is dispatched and its first microtask calls fetch with \<open>q\<close>.
  With \<open>useCache\<close> true the read evicts the stale entry; with \<open>useCache\<close> false the cache is
  not read and stays as it is. And \<open>setText(q)\<close> arms the timer exactly when \<open>q\<close> passes the
  length gate and is neither equal to \<open>lastSearchedQuery\<close>, nor in flight, nor a
  near-duplicate of \<open>lastSearchedQuery\<close>.
\<close>

theorem expired_entry_refetched:
  fixes w :: "'r world"
  assumes "map_of (cache w) (normalizeQuery q) = Some (ts, r)"
    and "now w - ts > cacheTTL w"
    and "latestText w = q" and "timerId w = Some due" and "due \<le> now w"
    and "normalizeQuery q \<noteq> []" and "minLength w \<le> int (length (normalizeQuery q))"
    and "inFlightQuery w \<noteq> Some (normalizeQuery q)"
  shows "seq (exec TimerFire w) = seq w + 1
       \<and> attempts (exec TimerFire w) = (attempts w)(seq w + 1 \<mapsto> Attempt (normalizeQuery q) Queued)
       \<and> log (exec TimerFire w) = log w @ [(Some (seq w + 1), OnStart (normalizeQuery q))]
       \<and> (useCache w \<longrightarrow> map_of (cache (exec TimerFire w)) (normalizeQuery q) = None)
       \<and> (\<not> useCache w \<longrightarrow> cache (exec TimerFire w) = cache w)
       \<and> (\<exists>sg. log (exec (FetchStart (seq w + 1)) (exec TimerFire w))
              = log w @ [(Some (seq w + 1), OnStart (normalizeQuery q)),
                         (Some (seq w + 1), FetchCall (normalizeQuery q) sg)])
       \<and> (\<forall>w0 :: 'r world. timerId (exec (SetText (Some q)) w0) \<noteq> None \<longleftrightarrow>
            (normalizeQuery q \<noteq> [] \<and> minLength w0 \<le> int (length (normalizeQuery q))
             \<and> normalizeQuery q \<noteq> lastSearchedQuery w0
             \<and> Some (normalizeQuery q) \<noteq> inFlightQuery w0
             \<and> \<not> nearDuplicate (normalizeQuery q) (lastSearchedQuery w0)))"
proof -
  define nq where "nq = normalizeQuery q"
  define w0 where "w0 = w\<lparr>timerId := None\<rparr>"
  define w' where "w' = exec TimerFire w"
  define c where "c = (if useCache w then AList.delete nq (cache w) else cache w)"
  have e: "w' = run (Some q) w0"
    using assms(3,4,5) by (simp add: w'_def timerFire_def w0_def Let_def)
  have "getCached (normalizeQuery q) w0
          = (Null, w0\<lparr>cache := (if useCache w0 then AList.delete (normalizeQuery q) (cache w0)
                                   else cache w0)\<rparr>)"
    using assms(1,2) by (intro getCached_expired) (simp_all add: w0_def)
  then have g: "getCached (normalizeQuery q) w0 = (Null, w0\<lparr>cache := c\<rparr>)"
    by (simp add: w0_def c_def nq_def)
  have "\<exists>ac cs ov. run (Some q) w0 =
           w0\<lparr>cache := c, inFlightQuery := Some (normalizeQuery q),
             abortController := ac, controllers := cs, seq := seq w0 + 1,
             log := log w0 @ [(Some (seq w0 + 1), OnStart (normalizeQuery q))],
             observed := ov,
             attempts := (attempts w0)(seq w0 + 1 \<mapsto> Attempt (normalizeQuery q) Queued)\<rparr>"
    using assms(6,7,8) by (intro run_dispatches [OF _ _ _ g]) (simp_all add: w0_def)
  then obtain ac cs ov where r: "w' =
           w0\<lparr>cache := c, inFlightQuery := Some nq,
             abortController := ac, controllers := cs, seq := seq w0 + 1,
             log := log w0 @ [(Some (seq w0 + 1), OnStart nq)],
             observed := ov,
             attempts := (attempts w0)(seq w0 + 1 \<mapsto> Attempt nq Queued)\<rparr>"
    unfolding e nq_def by blast
  have f: "seq w' = seq w + 1" "attempts w' = (attempts w)(seq w + 1 \<mapsto> Attempt nq Queued)"
    "log w' = log w @ [(Some (seq w + 1), OnStart nq)]" "abortController w' = ac"
    "cache w' = c"
    unfolding r by (simp_all add: w0_def)
  have ev: "useCache w \<longrightarrow> map_of (cache w') nq = None"
    unfolding f(5) c_def by (simp add: delete_conv)
  have keep: "\<not> useCache w \<longrightarrow> cache w' = cache w"
    unfolding f(5) c_def by simp
  from f(2) have a: "attempts w' (seq w + 1) = Some (Attempt nq Queued)" by simp
  have fs: "log (exec (FetchStart (seq w + 1)) w')
              = log w @ [(Some (seq w + 1), OnStart nq), (Some (seq w + 1), FetchCall nq ac)]"
    using fetchStart_queued [OF a] f by simp
  have arm: "\<forall>w0 :: 'r world. timerId (exec (SetText (Some q)) w0) \<noteq> None \<longleftrightarrow>
            (nq \<noteq> [] \<and> minLength w0 \<le> int (length nq)
             \<and> nq \<noteq> lastSearchedQuery w0 \<and> Some nq \<noteq> inFlightQuery w0
             \<and> \<not> nearDuplicate nq (lastSearchedQuery w0))"
  proof (intro allI)
    fix w0 :: "'r world"
    show "timerId (exec (SetText (Some q)) w0) \<noteq> None \<longleftrightarrow>
            (nq \<noteq> [] \<and> minLength w0 \<le> int (length nq)
             \<and> nq \<noteq> lastSearchedQuery w0 \<and> Some nq \<noteq> inFlightQuery w0
             \<and> \<not> nearDuplicate nq (lastSearchedQuery w0))"
      unfolding nq_def using setText_arms_iff [of q w0] by simp
  qed
  have ex: "\<exists>sg. log (exec (FetchStart (seq w + 1)) w')
              = log w @ [(Some (seq w + 1), OnStart nq), (Some (seq w + 1), FetchCall nq sg)]"
    using fs by (rule exI)
  show ?thesis
    using f(1,2,3) ev keep ex arm unfolding w'_def nq_def by (intro conjI) assumption+
qed

theorem expired_entry_refetched_witness:
  "map_of (cache stale_hello) (normalizeQuery ''hello'') = Some (0, NonNull 7)
   \<and> now stale_hello - 0 > cacheTTL stale_hello
   \<and> latestText stale_hello = ''hello'' \<and> timerId stale_hello = Some 60076
   \<and> 60076 \<le> now stale_hello
   \<and> normalizeQuery ''hello'' \<noteq> []
   \<and> minLength stale_hello \<le> int (length (normalizeQuery ''hello''))
   \<and> inFlightQuery stale_hello \<noteq> Some (normalizeQuery ''hello'')
   \<and> useCache stale_hello
   \<and> seq (exec TimerFire stale_hello) = 3
   \<and> attempts (exec TimerFire stale_hello) 3 = Some (Attempt ''hello'' Queued)
   \<and> map_of (cache (exec TimerFire stale_hello)) ''hello'' = None"
proof -
  have h1: "useCache stale_hello" by (rule stale_hello_fields)
  have h2: "map_of (cache stale_hello) (normalizeQuery ''hello'') = Some (0, NonNull 7)"
    by (simp add: stale_hello_fields norm_hello)
  have h3: "now stale_hello - 0 > cacheTTL stale_hello" by (simp add: stale_hello_fields)
  have h4: "latestText stale_hello = ''hello''" by (rule stale_hello_fields)
  have h5: "timerId stale_hello = Some 60076" by (rule stale_hello_fields)
  have h6: "60076 \<le> now stale_hello" by (simp add: stale_hello_fields)
  have h7: "normalizeQuery ''hello'' \<noteq> []" by (simp add: norm_hello)
  have h8: "minLength stale_hello \<le> int (length (normalizeQuery ''hello''))"
    by (simp add: stale_hello_fields norm_hello)
  have h9: "inFlightQuery stale_hello \<noteq> Some (normalizeQuery ''hello'')"
    by (simp add: stale_hello_fields)
  note t = expired_entry_refetched [OF h2 h3 h4 h5 h6 h7 h8 h9]
  from t h1 have "seq (exec TimerFire stale_hello) = 3"
    "attempts (exec TimerFire stale_hello) 3 = Some (Attempt ''hello'' Queued)"
    "map_of (cache (exec TimerFire stale_hello)) ''hello'' = None"
    by (simp_all add: stale_hello_fields norm_hello)
  with h1 h2 h3 h4 h5 h6 h7 h8 h9 show ?thesis by (intro conjI) assumption+
qed

subsection \<open>Rejections after cancellation\<close>

text \<open>
  The \<open>catch\<close> handler logs nothing for an attempt that has been superseded, and nothing
  for an error named \<open>AbortError\<close>.
\<close>

lemma rejection_swallowed:
  assumes "k \<noteq> seq w \<or> err_name err = ''AbortError''"
  shows "log (exec (Reject k err) w) = log w"
proof (cases rule: catchHandler_cases [of k err w])
  case idle
  then show ?thesis by simp
next
  case (swallow nq sg)
  then show ?thesis by simp
next
  case (report nq sg)
  with assms show ?thesis by simp
qed

text \<open>
  Claim C5 does not hold of the code after \<open>cancel()\<close>. The fetch of attempt 1 is called
  with the signal of controller 0; \<open>cancel()\<close> aborts that controller, clears
  \<open>abortController\<close> and leaves the counter at 1. When the fetch promise then rejects with
  an error whose name is not \<open>AbortError\<close>, the handler's test of
  \<open>abortController?.signal.aborted\<close> reads the cleared variable, the sequence guard passes,
  and \<open>onError\<close> is invoked.
\<close>

theorem cancelled_rejection_reaches_onError:
  "map_sum id (\<lambda>w. (attempts w 1, controllers w, seq w, abortController w))
     (session browser_env (Some default_options)
        [RunImmediate (Some ''hello''), FetchStart 1, Cancel] :: error + nat world)
     = Inr (Some (Attempt ''hello'' (Fetching (Some 0))), [True], 1, None)
   \<and> map_sum id log
     (session browser_env (Some default_options)
        [RunImmediate (Some ''hello''), FetchStart 1, Cancel,
         Reject 1 (JsError ''Error'' ''cancelled''), Finally 1] :: error + nat world)
     = Inr [(Some 1, OnStart ''hello''), (Some 1, FetchCall ''hello'' (Some 0)),
            (Some 1, OnError ''hello'' (JsError ''Error'' ''cancelled'')),
            (Some 1, OnFinally ''hello'')]"
  by (simp add: session_default eval_defs norm_hello)

subsection \<open>Cache hits\<close>

text \<open>
  Claim C6, as stated, fails in two ways. The length gate comes before the cache lookup:
  after a search for \<open>hello\<close> the cache holds a fresh entry, with \<open>useCache\<close> true and
  \<open>refreshOnCache\<close> false, and once \<open>setOptions\<close> has raised \<open>minLength\<close> to 10,
  \<open>runImmediate("hello")\<close> logs nothing. And \<open>run\<close> takes a cached \<open>null\<close> for a miss
  (\<open>cached !== null\<close>, line 184): when the fetch for \<open>hello\<close> resolved to \<open>null\<close>, the fresh
  entry gives no cached success, and \<open>runImmediate("hello")\<close> dispatches attempt 2 and
  fetches again.
\<close>

theorem fresh_entry_without_cached_success:
  "map_sum id (\<lambda>w. (useCache w, refreshOnCache w, map_of (cache w) ''hello'', now w, cacheTTL w))
     (session browser_env (Some default_options)
        [RunImmediate (Some ''hello''), FetchStart 1, Resolve 1 (NonNull (7::nat)), Finally 1,
         SetOptions (Some \<lparr>so_minLength = Some 10, so_debounceMs = None, so_cacheTTL = None,
                           so_useCache = None, so_refreshOnCache = None\<rparr>)])
     = Inr (True, False, Some (0, NonNull 7), 0, 60000)
   \<and> map_sum id log
     (session browser_env (Some default_options)
        [RunImmediate (Some ''hello''), FetchStart 1, Resolve 1 (NonNull (7::nat)), Finally 1,
         SetOptions (Some \<lparr>so_minLength = Some 10, so_debounceMs = None, so_cacheTTL = None,
                           so_useCache = None, so_refreshOnCache = None\<rparr>),
         RunImmediate (Some ''hello'')])
     = Inr [(Some 1, OnStart ''hello''), (Some 1, FetchCall ''hello'' (Some 0)),
            (Some 1, OnSuccess ''hello'' (NonNull 7) False), (Some 1, OnFinally ''hello'')]
   \<and> map_sum id (\<lambda>w. (useCache w, refreshOnCache w, map_of (cache w) ''hello'', now w, cacheTTL w))
     (session browser_env (Some default_options)
        [RunImmediate (Some ''hello''), FetchStart 1, Resolve 1 (Null :: nat nullable),
         Finally 1])
     = Inr (True, False, Some (0, Null), 0, 60000)
   \<and> map_sum id log
     (session browser_env (Some default_options)
        [RunImmediate (Some ''hello''), FetchStart 1, Resolve 1 (Null :: nat nullable),
         Finally 1, RunImmediate (Some ''hello''), FetchStart 2])
     = Inr [(Some 1, OnStart ''hello''), (Some 1, FetchCall ''hello'' (Some 0)),
            (Some 1, OnSuccess ''hello'' Null False), (Some 1, OnFinally ''hello''),
            (Some 2, OnStart ''hello''), (Some 2, FetchCall ''hello'' (Some 1))]"
  by (simp add: session_default eval_defs norm_hello)

text \<open>
  Claim C6, amended. If \<open>useCache\<close> is true, \<open>refreshOnCache\<close> is false, the query passes the
  length gate and the cache holds an entry for it, with a result other than \<open>null\<close>, that is
  at most \<open>cacheTTL\<close> old, then \<open>run\<close> invokes \<open>onSuccess\<close> once, with the cached result and
  \<open>fromCache\<close> true, and changes nothing else: no attempt is dispatched, so fetch is not
  invoked, and the in-flight state is as before. The same holds through \<open>runImmediate\<close>,
  which also records the text and clears the timer.
\<close>

theorem fresh_cache_hit_short_circuits:
  fixes w :: "'r world"
  assumes "useCache w" and "\<not> refreshOnCache w"
    and "map_of (cache w) (normalizeQuery q) = Some (ts, NonNull r)"
    and "now w - ts \<le> cacheTTL w"
    and "normalizeQuery q \<noteq> []" and "minLength w \<le> int (length (normalizeQuery q))"
  shows "run (Some q) w
           = w\<lparr>log := log w @ [(None, OnSuccess (normalizeQuery q) (NonNull r) True)],
               observed := observed w @ [getState w]\<rparr>
       \<and> exec (RunImmediate (Some q)) w
           = w\<lparr>latestText := q, timerId := None,
               log := log w @ [(None, OnSuccess (normalizeQuery q) (NonNull r) True)],
               observed := observed w @ [getState (w\<lparr>latestText := q\<rparr>)]\<rparr>
       \<and> attempts (run (Some q) w) = attempts w
       \<and> seq (run (Some q) w) = seq w
       \<and> inFlightQuery (run (Some q) w) = inFlightQuery w
       \<and> abortController (run (Some q) w) = abortController w"
proof -
  have g: "getCached (normalizeQuery q) w' = (NonNull r, w')"
    if "useCache w'" "cache w' = cache w" "now w' = now w" "cacheTTL w' = cacheTTL w"
    for w' :: "'r world"
    using that assms(3,4) by (simp add: getCached_def)
  have r1: "run (Some q) w
           = w\<lparr>log := log w @ [(None, OnSuccess (normalizeQuery q) (NonNull r) True)],
               observed := observed w @ [getState w]\<rparr>"
    using assms(1,2,5,6) g [of w] by (simp add: run_def Let_def emit_def)
  define w0 where "w0 = w\<lparr>latestText := q, timerId := None\<rparr>"
  have "run (Some q) w0
          = w0\<lparr>log := log w0 @ [(None, OnSuccess (normalizeQuery q) (NonNull r) True)],
                observed := observed w0 @ [getState w0]\<rparr>"
    using assms(1,2,5,6) g [of w0] by (simp add: run_def Let_def emit_def w0_def)
  then have r2: "exec (RunImmediate (Some q)) w
           = w\<lparr>latestText := q, timerId := None,
               log := log w @ [(None, OnSuccess (normalizeQuery q) (NonNull r) True)],
               observed := observed w @ [getState (w\<lparr>latestText := q\<rparr>)]\<rparr>"
    by (simp add: runImmediate_eq w0_def getState_def)
  from r1 r2 show ?thesis by simp
qed

theorem fresh_cache_hit_short_circuits_witness:
  "useCache after_hello \<and> \<not> refreshOnCache after_hello
   \<and> map_of (cache after_hello) (normalizeQuery ''hello'') = Some (0, NonNull 7)
   \<and> now after_hello - 0 \<le> cacheTTL after_hello
   \<and> normalizeQuery ''hello'' \<noteq> []
   \<and> minLength after_hello \<le> int (length (normalizeQuery ''hello''))
   \<and> log (run (Some ''hello'') after_hello)
       = log after_hello @ [(None, OnSuccess ''hello'' (NonNull 7) True)]
   \<and> attempts (run (Some ''hello'') after_hello) = attempts after_hello"
proof -
  have h1: "useCache after_hello" by (simp add: after_hello_eq)
  have h2: "\<not> refreshOnCache after_hello" by (simp add: after_hello_eq)
  have h3: "map_of (cache after_hello) (normalizeQuery ''hello'') = Some (0, NonNull 7)"
    by (simp add: after_hello_eq norm_hello)
  have h4: "now after_hello - 0 \<le> cacheTTL after_hello" by (simp add: after_hello_eq)
  have h5: "normalizeQuery ''hello'' \<noteq> []" by (simp add: norm_hello)
  have h6: "minLength after_hello \<le> int (length (normalizeQuery ''hello''))"
    by (simp add: after_hello_eq norm_hello)
  note t = fresh_cache_hit_short_circuits [OF h1 h2 h3 h4 h5 h6]
  from t have "run (Some ''hello'') after_hello
       = after_hello\<lparr>log := log after_hello @ [(None, OnSuccess ''hello'' (NonNull 7) True)],
                      observed := observed after_hello @ [getState after_hello]\<rparr>"
    by (simp add: norm_hello)
  then have "log (run (Some ''hello'') after_hello)
       = log after_hello @ [(None, OnSuccess ''hello'' (NonNull 7) True)]"
    "attempts (run (Some ''hello'') after_hello) = attempts after_hello"
    by simp_all
  with h1 h2 h3 h4 h5 h6 show ?thesis by (intro conjI) assumption+
qed

subsection \<open>Debounce: the last text wins\<close>

lemma norm_explain_react: "normalizeQuery ''explain react'' = ''explain react''"
  by code_simp

lemma norm_explain_react_hooks: "normalizeQuery ''explain react hooks'' = ''explain react hooks''"
  by code_simp

lemma setText_forgets:
  "setText b (w\<lparr>latestText := x, timerId := y\<rparr>) = setText b w"
  by (simp add: setText_def schedule_def clearTimer_eq Let_def)

lemma setText_latestText: "latestText (setText (Some b) w) = b"
  by (subst setText_eq) simp

lemma timerFire_adds_at_most_one:
  fixes w :: "'r world"
  shows "(seq (timerFire w) = seq w \<and> attempts (timerFire w) = attempts w)
       \<or> (seq (timerFire w) = seq w + 1
          \<and> attempts (timerFire w)
              = (attempts w)(seq w + 1 \<mapsto> Attempt (normalizeQuery (latestText w)) Queued))"
proof (cases rule: timerFire_cases [of w])
  case idle
  then show ?thesis by simp
next
  case (fire due)
  define w0 where "w0 = w\<lparr>timerId := None\<rparr>"
  show ?thesis
  proof (cases rule: run_cases [of "Some (latestText w)" w0])
    case (same c lg ov)
    with fire(3) show ?thesis by (simp add: w0_def)
  next
    case (dispatched c lg ac cs ov)
    with fire(3) show ?thesis by (simp add: w0_def)
  qed
qed

text \<open>
  Claim C8. When \<open>setText(a)\<close> is followed by \<open>setText(b)\<close> before the timer has fired
  (only time passes in between), the world is the one \<open>setText(b)\<close> alone would have
  produced: the timer of \<open>a\<close> is cancelled and its text overwritten, so nothing later can
  be on account of \<open>a\<close>. When the timer then fires, it dispatches at most one attempt, and
  that attempt is for the normalised \<open>b\<close>; and the first microtask of a queued attempt calls
  fetch with that attempt's query.
\<close>

theorem setText_last_write_wins:
  fixes w :: "'r world"
  shows "exec (SetText (Some b)) (exec (Tick d) (exec (SetText (Some a)) w))
           = exec (SetText (Some b)) (exec (Tick d) w)
       \<and> ((seq (exec TimerFire (exec (Tick d')
                 (exec (SetText (Some b)) (exec (Tick d) (exec (SetText (Some a)) w)))))
              = seq w
            \<and> attempts (exec TimerFire (exec (Tick d')
                 (exec (SetText (Some b)) (exec (Tick d) (exec (SetText (Some a)) w)))))
              = attempts w)
          \<or> (seq (exec TimerFire (exec (Tick d')
                 (exec (SetText (Some b)) (exec (Tick d) (exec (SetText (Some a)) w)))))
              = seq w + 1
            \<and> attempts (exec TimerFire (exec (Tick d')
                 (exec (SetText (Some b)) (exec (Tick d) (exec (SetText (Some a)) w)))))
              = (attempts w)(seq w + 1 \<mapsto> Attempt (normalizeQuery b) Queued)))
       \<and> (\<forall>(w0 :: 'r world) k nq. attempts w0 k = Some (Attempt nq Queued) \<longrightarrow>
            log (exec (FetchStart k) w0)
              = log w0 @ [(Some k, FetchCall nq (abortController w0))])"
proof -
  have "setText (Some a) w = w\<lparr>latestText := a, timerId := timerId (setText (Some a) w)\<rparr>"
    by (subst setText_eq) simp
  then obtain y where sa: "setText (Some a) w = w\<lparr>latestText := a, timerId := y\<rparr>"
    by blast
  have "exec (Tick d) (exec (SetText (Some a)) w)
          = (exec (Tick d) w)\<lparr>latestText := a, timerId := y\<rparr>"
    by (simp add: sa)
  then have eq: "exec (SetText (Some b)) (exec (Tick d) (exec (SetText (Some a)) w))
           = exec (SetText (Some b)) (exec (Tick d) w)"
    by (simp add: setText_forgets)
  define w2 where "w2 = exec (SetText (Some b)) (exec (Tick d) w)"
  define w3 where "w3 = exec (Tick d') w2"
  have w2: "seq w2 = seq w" "attempts w2 = attempts w" "latestText w2 = b"
    unfolding w2_def by (simp_all, (subst setText_eq, simp)+)
  have w3: "seq w3 = seq w" "attempts w3 = attempts w" "latestText w3 = b"
    unfolding w3_def using w2 by simp_all
  have one: "(seq (exec TimerFire w3) = seq w \<and> attempts (exec TimerFire w3) = attempts w)
       \<or> (seq (exec TimerFire w3) = seq w + 1
          \<and> attempts (exec TimerFire w3)
              = (attempts w)(seq w + 1 \<mapsto> Attempt (normalizeQuery b) Queued))"
    using timerFire_adds_at_most_one [of w3] w3 by simp
  have fs: "\<forall>(w0 :: 'r world) k nq. attempts w0 k = Some (Attempt nq Queued) \<longrightarrow>
            log (exec (FetchStart k) w0)
              = log w0 @ [(Some k, FetchCall nq (abortController w0))]"
    by (simp add: fetchStart_queued)
  note one' = one [unfolded w3_def w2_def]
  show ?thesis
    unfolding eq by (rule conjI [OF refl conjI [OF one' fs]])
qed

theorem setText_last_write_wins_witness:
  "attempts (exec TimerFire (exec (Tick 75)
      (exec (SetText (Some ''explain react hooks'')) (exec (Tick 50)
         (exec (SetText (Some ''explain react'')) fresh_world))))) 1
     = Some (Attempt ''explain react hooks'' Queued)
   \<and> log (exec (FetchStart 1) (exec TimerFire (exec (Tick 75)
      (exec (SetText (Some ''explain react hooks'')) (exec (Tick 50)
         (exec (SetText (Some ''explain react'')) fresh_world))))))
     = [(Some 1, OnStart ''explain react hooks''),
        (Some 1, FetchCall ''explain react hooks'' (Some 0))]
   \<and> exec (SetText (Some ''explain react hooks'')) (exec (Tick 50)
         (exec (SetText (Some ''explain react'')) fresh_world))
     = exec (SetText (Some ''explain react hooks'')) (exec (Tick 50) fresh_world)"
proof -
  define w3 where "w3 = exec TimerFire (exec (Tick 75)
      (exec (SetText (Some ''explain react hooks'')) (exec (Tick 50)
         (exec (SetText (Some ''explain react'')) fresh_world))))"
  note t = setText_last_write_wins [of "''explain react hooks''" 50 "''explain react''"
      fresh_world 75]
  have a: "attempts w3 1 = Some (Attempt ''explain react hooks'' Queued)"
    unfolding w3_def
    by (simp add: eval_defs norm_explain_react norm_explain_react_hooks nearDuplicate_def)
  have l: "log w3 = [(Some 1, OnStart ''explain react hooks'')]" "abortController w3 = Some 0"
    unfolding w3_def
    by (simp_all add: eval_defs norm_explain_react norm_explain_react_hooks nearDuplicate_def)
  from t have "\<forall>(w0 :: nat world) k nq. attempts w0 k = Some (Attempt nq Queued) \<longrightarrow>
            log (exec (FetchStart k) w0)
              = log w0 @ [(Some k, FetchCall nq (abortController w0))]"
    by (elim conjE)
  with a have "log (exec (FetchStart 1) w3)
      = log w3 @ [(Some 1, FetchCall ''explain react hooks'' (abortController w3))]"
    by blast
  with l have f: "log (exec (FetchStart 1) w3)
     = [(Some 1, OnStart ''explain react hooks''),
        (Some 1, FetchCall ''explain react hooks'' (Some 0))]"
    by simp
  from t have "exec (SetText (Some ''explain react hooks'')) (exec (Tick 50)
         (exec (SetText (Some ''explain react'')) fresh_world))
     = exec (SetText (Some ''explain react hooks'')) (exec (Tick 50) fresh_world)"
    by (elim conjE)
  with a f show ?thesis unfolding w3_def by (intro conjI) assumption+
qed

subsection \<open>Cache writes\<close>

lemma length_update_fresh:
  "map_of al k = None \<Longrightarrow> length (AList.update k v al) = Suc (length al)"
  by (induction al) (auto split: if_splits)

lemma length_update_ge: "length al \<le> length (AList.update k v al)"
  by (induction al) auto

lemma getCached_disabled: "\<not> useCache w \<Longrightarrow> getCached q w = (Null, w)"
  by (simp add: getCached_def)

lemma no_cache_in_flight_fields:
  "useCache no_cache_in_flight = False"
  "attempts no_cache_in_flight 2 = Some (Attempt ''weather'' (Fetching (Some 1)))"
  "inFlightQuery no_cache_in_flight = Some ''weather''" "seq no_cache_in_flight = 2"
  "cache no_cache_in_flight = [(''hello'', 0, NonNull 7)]" "now no_cache_in_flight = 0"
  by (simp_all add: no_cache_in_flight_def eval_defs norm_hello norm_weather)

text \<open>
  Claim C9, as stated, fails after \<open>cancel()\<close>: the guard of the \<open>then\<close> handler has two
  halves, and \<open>cancel()\<close> clears the in-flight slot without advancing the counter. The
  fetch of attempt 1 resolves while its sequence number is still the current one, yet
  nothing is written: the cache stays empty and \<open>cacheSize\<close> stays 0.
\<close>

theorem cancelled_resolution_not_cached:
  "map_sum id (\<lambda>w. (attempts w 1, seq w, inFlightQuery w))
     (session browser_env (Some default_options)
        [RunImmediate (Some ''hello''), FetchStart 1, Cancel] :: error + nat world)
     = Inr (Some (Attempt ''hello'' (Fetching (Some 0))), 1, None)
   \<and> map_sum id (\<lambda>w. (cache w, st_cacheSize (getState w), lastResult w, log w))
     (session browser_env (Some default_options)
        [RunImmediate (Some ''hello''), FetchStart 1, Cancel, Resolve 1 (NonNull (7::nat))])
     = Inr ([], 0, Null,
            [(Some 1, OnStart ''hello''), (Some 1, FetchCall ''hello'' (Some 0))])"
  by (simp add: session_default eval_defs norm_hello getState_def)

text \<open>
  Claim C9, amended. A fetch resolution that passes the whole guard of the \<open>then\<close> handler
  (the sequence number is current and the in-flight query is still the attempt's query, so
  the attempt was neither superseded nor cancelled) writes its result into the cache under
  the attempt's query, stamped with the current time, whatever \<open>useCache\<close> is; \<open>cacheSize\<close>
  does not shrink, and grows by one when the query had no entry. With \<open>useCache\<close> false,
  every cache read misses and leaves the cache alone: only reads are disabled.
\<close>

theorem resolution_cached_regardless_of_useCache:
  fixes w :: "'r world"
  assumes "attempts w k = Some (Attempt nq (Fetching sg))"
    and "inFlightQuery w = Some nq" and "k = seq w"
  shows "map_of (cache (exec (Resolve k res) w)) nq = Some (now w, res)
       \<and> st_cacheSize (getState w) \<le> st_cacheSize (getState (exec (Resolve k res) w))
       \<and> (map_of (cache w) nq = None \<longrightarrow>
            st_cacheSize (getState (exec (Resolve k res) w)) = st_cacheSize (getState w) + 1)
       \<and> (\<not> useCache w \<longrightarrow> (\<forall>q. getCached q w = (Null, w)))"
proof -
  have c: "cache (exec (Resolve k res) w) = AList.update nq (now w, res) (cache w)"
    using thenHandler_commit [OF assms] by simp
  have "map_of (cache (exec (Resolve k res) w)) nq = Some (now w, res)"
    unfolding c by (simp add: update_conv')
  moreover have "st_cacheSize (getState w) \<le> st_cacheSize (getState (exec (Resolve k res) w))"
    unfolding getState_def c by (simp add: length_update_ge)
  moreover have "map_of (cache w) nq = None \<longrightarrow>
            st_cacheSize (getState (exec (Resolve k res) w)) = st_cacheSize (getState w) + 1"
    unfolding getState_def c by (simp add: length_update_fresh)
  moreover have "\<not> useCache w \<longrightarrow> (\<forall>q. getCached q w = (Null, w))"
    by (simp add: getCached_disabled)
  ultimately show ?thesis by (intro conjI) assumption+
qed

theorem resolution_cached_regardless_of_useCache_witness:
  "\<not> useCache no_cache_in_flight
   \<and> attempts no_cache_in_flight 2 = Some (Attempt ''weather'' (Fetching (Some 1)))
   \<and> inFlightQuery no_cache_in_flight = Some ''weather''
   \<and> 2 = seq no_cache_in_flight
   \<and> st_cacheSize (getState no_cache_in_flight) = 1
   \<and> map_of (cache (exec (Resolve 2 (NonNull 8)) no_cache_in_flight)) ''weather'' = Some (0, NonNull 8)
   \<and> st_cacheSize (getState (exec (Resolve 2 (NonNull 8)) no_cache_in_flight)) = 2"
proof -
  have h0: "\<not> useCache no_cache_in_flight" by (simp add: no_cache_in_flight_fields)
  have h1: "attempts no_cache_in_flight 2 = Some (Attempt ''weather'' (Fetching (Some 1)))"
    by (rule no_cache_in_flight_fields)
  have h2: "inFlightQuery no_cache_in_flight = Some ''weather''"
    by (rule no_cache_in_flight_fields)
  have h3: "2 = seq no_cache_in_flight" by (simp add: no_cache_in_flight_fields)
  have s: "st_cacheSize (getState no_cache_in_flight) = 1"
    by (simp add: getState_def no_cache_in_flight_fields)
  have m: "map_of (cache no_cache_in_flight) ''weather'' = None"
    by (simp add: no_cache_in_flight_fields)
  note t = resolution_cached_regardless_of_useCache [OF h1 h2 h3, of "NonNull 8"]
  from t have a: "map_of (cache (exec (Resolve 2 (NonNull 8)) no_cache_in_flight)) ''weather'' = Some (0, NonNull 8)"
    by (simp add: no_cache_in_flight_fields)
  from t m s have b: "st_cacheSize (getState (exec (Resolve 2 (NonNull 8)) no_cache_in_flight)) = 2"
    by simp
  from h0 h1 h2 h3 s a b show ?thesis by (intro conjI) assumption+
qed

end
